theory Spec2Isabelle
  imports Main "HOL-Library.AList"
begin

section \<open>Exceptions and results\<close>

text \<open>
  The library signals failure by throwing.  Three exception classes occur:
  \<^verbatim>\<open>std::runtime_error\<close> (thrown by \<^verbatim>\<open>select_victim\<close> on an empty policy),
  \<^verbatim>\<open>policies::policy_error\<close>, which is declared as
  \<^verbatim>\<open>class policy_error : public std::runtime_error\<close>, and \<^verbatim>\<open>std::out_of_range\<close>
  (thrown by \<^verbatim>\<open>get\<close> on a miss), which derives from \<^verbatim>\<open>std::logic_error\<close>.
  A handler \<^verbatim>\<open>catch (const std::runtime_error&)\<close> therefore catches the first two
  classes and lets the third pass.

  One more way of not returning occurs.  Two computations divide without a test of the
  divisor: \<^verbatim>\<open>memory_capacity_policy::eviction_count\<close> divides by
  \<^verbatim>\<open>m_item_size_estimate\<close>, and \<^verbatim>\<open>time_decay_access_policy::on_access\<close> takes
  \<^verbatim>\<open>m_current_time % m_decay_interval\<close>.  An integer division by zero has undefined
  behaviour; on the usual platforms the process is stopped by \<^verbatim>\<open>SIGFPE\<close>.  It is no
  exception, so no handler catches it: the call and all its callers end there.
\<close>

datatype error =
    Runtime_error string
  | Policy_error string
  | Out_of_range string
  | Division_by_zero

fun is_runtime_error :: "error \<Rightarrow> bool" where
  "is_runtime_error (Runtime_error _) = True"
| "is_runtime_error (Policy_error _) = True"
| "is_runtime_error (Out_of_range _) = False"
| "is_runtime_error Division_by_zero = False"

definition policy_error :: "string \<Rightarrow> error" where
  "policy_error p_message = Policy_error (''Policy Error: '' @ p_message)"

text \<open>
  A member function either returns a value or does not; in both cases it leaves a state
  behind (a throw does not undo the mutations made before it).
\<close>

datatype ('a, 's) outcome = Returns 'a 's | Throws error 's

fun final_state :: "('a, 's) outcome \<Rightarrow> 's" where
  "final_state (Returns _ s) = s"
| "final_state (Throws _ s) = s"

section \<open>Arithmetic of \<^verbatim>\<open>std::size_t\<close>\<close>

text \<open>
  \<^verbatim>\<open>std::size_t\<close> is an unsigned type of 64 bits: its arithmetic wraps around modulo
  \<open>2 ^ 64\<close>.  Values of the type are natural numbers here, and the wrap is written out
  with the three functions below wherever the source computes without a guard that
  excludes it.
\<close>

definition size_t_sub :: "nat \<Rightarrow> nat \<Rightarrow> nat" where
  "size_t_sub a b = (if b \<le> a then a - b else a + 2 ^ 64 - b)"

definition size_t_add :: "nat \<Rightarrow> nat \<Rightarrow> nat" where
  "size_t_add a b = (a + b) mod 2 ^ 64"

definition size_t_mul :: "nat \<Rightarrow> nat \<Rightarrow> nat" where
  "size_t_mul a b = (a * b) mod 2 ^ 64"

section \<open>Eviction policies\<close>

text \<open>
  The eviction policies keep \<^verbatim>\<open>std::list\<close>s of keys together with a hash map
  \<^verbatim>\<open>m_key_to_iterator\<close> from a key to the list node that holds it.  A list is modelled
  by a HOL list (front = head).  A node handle is modelled by the key it designates:
  the model keeps the set of keys that own a handle (the domain of
  \<^verbatim>\<open>m_key_to_iterator\<close>), and \<^verbatim>\<open>list.erase(handle)\<close> removes that key's node.  The
  handle of a key is set by the call that links the key's newest node, so it designates
  the node of that key linked last: the first node holding the key in a list filled by
  \<^verbatim>\<open>push_front\<close>, the last one in a list filled by \<^verbatim>\<open>push_back\<close>.
\<close>

subsection \<open>LRU\<close>

record 'k lru_eviction_policy =
  lru_access_list :: "'k list"
  lru_key_to_iterator :: "'k set"

definition new_lru_eviction_policy :: "'k lru_eviction_policy" where
  "new_lru_eviction_policy = \<lparr>lru_access_list = [], lru_key_to_iterator = {}\<rparr>"

definition lru_on_access :: "'k \<Rightarrow> 'k lru_eviction_policy \<Rightarrow> 'k lru_eviction_policy" where
  "lru_on_access p_key s =
     (if p_key \<in> lru_key_to_iterator s
      then s\<lparr>lru_access_list := p_key # remove1 p_key (lru_access_list s)\<rparr>
      else s)"

definition lru_on_insert :: "'k \<Rightarrow> 'k lru_eviction_policy \<Rightarrow> 'k lru_eviction_policy" where
  "lru_on_insert p_key s =
     s\<lparr>lru_access_list := p_key # lru_access_list s,
       lru_key_to_iterator := insert p_key (lru_key_to_iterator s)\<rparr>"

definition lru_on_update :: "'k \<Rightarrow> 'k lru_eviction_policy \<Rightarrow> 'k lru_eviction_policy" where
  "lru_on_update p_key s = lru_on_access p_key s"

definition lru_select_victim ::
  "'k lru_eviction_policy \<Rightarrow> ('k, 'k lru_eviction_policy) outcome" where
  "lru_select_victim s =
     (case rev (lru_access_list s) of
        [] \<Rightarrow> Throws (Runtime_error ''Cannot select victim from empty LRU policy'') s
      | back # _ \<Rightarrow> Returns back s)"

definition lru_remove_key :: "'k \<Rightarrow> 'k lru_eviction_policy \<Rightarrow> 'k lru_eviction_policy" where
  "lru_remove_key p_key s =
     (if p_key \<in> lru_key_to_iterator s
      then s\<lparr>lru_access_list := remove1 p_key (lru_access_list s),
             lru_key_to_iterator := lru_key_to_iterator s - {p_key}\<rparr>
      else s)"

definition lru_empty :: "'k lru_eviction_policy \<Rightarrow> bool" where
  "lru_empty s = (lru_access_list s = [])"

definition lru_size :: "'k lru_eviction_policy \<Rightarrow> nat" where
  "lru_size s = length (lru_access_list s)"

definition lru_clear :: "'k lru_eviction_policy \<Rightarrow> 'k lru_eviction_policy" where
  "lru_clear s = s\<lparr>lru_access_list := [], lru_key_to_iterator := {}\<rparr>"

subsection \<open>MRU\<close>

record 'k mru_eviction_policy =
  mru_access_list :: "'k list"
  mru_key_to_iterator :: "'k set"

definition new_mru_eviction_policy :: "'k mru_eviction_policy" where
  "new_mru_eviction_policy = \<lparr>mru_access_list = [], mru_key_to_iterator = {}\<rparr>"

definition mru_on_access :: "'k \<Rightarrow> 'k mru_eviction_policy \<Rightarrow> 'k mru_eviction_policy" where
  "mru_on_access p_key s =
     (if p_key \<in> mru_key_to_iterator s
      then s\<lparr>mru_access_list := p_key # remove1 p_key (mru_access_list s)\<rparr>
      else s)"

definition mru_on_insert :: "'k \<Rightarrow> 'k mru_eviction_policy \<Rightarrow> 'k mru_eviction_policy" where
  "mru_on_insert p_key s =
     s\<lparr>mru_access_list := p_key # mru_access_list s,
       mru_key_to_iterator := insert p_key (mru_key_to_iterator s)\<rparr>"

definition mru_on_update :: "'k \<Rightarrow> 'k mru_eviction_policy \<Rightarrow> 'k mru_eviction_policy" where
  "mru_on_update p_key s = mru_on_access p_key s"

definition mru_select_victim ::
  "'k mru_eviction_policy \<Rightarrow> ('k, 'k mru_eviction_policy) outcome" where
  "mru_select_victim s =
     (case mru_access_list s of
        [] \<Rightarrow> Throws (Runtime_error ''Cannot select victim from empty MRU policy'') s
      | front # _ \<Rightarrow> Returns front s)"

definition mru_remove_key :: "'k \<Rightarrow> 'k mru_eviction_policy \<Rightarrow> 'k mru_eviction_policy" where
  "mru_remove_key p_key s =
     (if p_key \<in> mru_key_to_iterator s
      then s\<lparr>mru_access_list := remove1 p_key (mru_access_list s),
             mru_key_to_iterator := mru_key_to_iterator s - {p_key}\<rparr>
      else s)"

definition mru_empty :: "'k mru_eviction_policy \<Rightarrow> bool" where
  "mru_empty s = (mru_access_list s = [])"

definition mru_size :: "'k mru_eviction_policy \<Rightarrow> nat" where
  "mru_size s = length (mru_access_list s)"

definition mru_clear :: "'k mru_eviction_policy \<Rightarrow> 'k mru_eviction_policy" where
  "mru_clear s = s\<lparr>mru_access_list := [], mru_key_to_iterator := {}\<rparr>"

subsection \<open>FIFO\<close>

text \<open>
  \<^verbatim>\<open>m_insertion_queue\<close> is a \<^verbatim>\<open>std::queue\<close> (front = head of the list) and
  \<^verbatim>\<open>m_key_exists\<close> an \<^verbatim>\<open>unordered_map<key_t, bool>\<close>, kept as an association list
  with one entry for each key so that its entries can be counted.
  \<^verbatim>\<open>select_victim\<close> pops candidates until it meets one whose flag is set; what it has
  popped stays popped, also when it throws.
\<close>

record 'k fifo_eviction_policy =
  fifo_insertion_queue :: "'k list"
  fifo_key_exists :: "('k \<times> bool) list"

definition new_fifo_eviction_policy :: "'k fifo_eviction_policy" where
  "new_fifo_eviction_policy = \<lparr>fifo_insertion_queue = [], fifo_key_exists = []\<rparr>"

definition fifo_on_access :: "'k \<Rightarrow> 'k fifo_eviction_policy \<Rightarrow> 'k fifo_eviction_policy" where
  "fifo_on_access p_key s = s"

definition fifo_on_insert :: "'k \<Rightarrow> 'k fifo_eviction_policy \<Rightarrow> 'k fifo_eviction_policy" where
  "fifo_on_insert p_key s =
     s\<lparr>fifo_insertion_queue := fifo_insertion_queue s @ [p_key],
       fifo_key_exists := AList.update p_key True (fifo_key_exists s)\<rparr>"

definition fifo_on_update :: "'k \<Rightarrow> 'k fifo_eviction_policy \<Rightarrow> 'k fifo_eviction_policy" where
  "fifo_on_update p_key s = s"

fun fifo_pop_until_live :: "('k \<times> bool) list \<Rightarrow> 'k list \<Rightarrow> 'k option \<times> 'k list" where
  "fifo_pop_until_live ex [] = (None, [])"
| "fifo_pop_until_live ex (candidate # queue) =
     (if map_of ex candidate = Some True then (Some candidate, queue)
      else fifo_pop_until_live ex queue)"

definition fifo_select_victim ::
  "'k fifo_eviction_policy \<Rightarrow> ('k, 'k fifo_eviction_policy) outcome" where
  "fifo_select_victim s =
     (case fifo_pop_until_live (fifo_key_exists s) (fifo_insertion_queue s) of
        (Some candidate, queue) \<Rightarrow> Returns candidate (s\<lparr>fifo_insertion_queue := queue\<rparr>)
      | (None, queue) \<Rightarrow>
          Throws (Runtime_error ''Cannot select victim from empty FIFO policy'')
            (s\<lparr>fifo_insertion_queue := queue\<rparr>))"

definition fifo_remove_key :: "'k \<Rightarrow> 'k fifo_eviction_policy \<Rightarrow> 'k fifo_eviction_policy" where
  "fifo_remove_key p_key s =
     (case map_of (fifo_key_exists s) p_key of
        Some _ \<Rightarrow> s\<lparr>fifo_key_exists := AList.update p_key False (fifo_key_exists s)\<rparr>
      | None \<Rightarrow> s)"

definition fifo_empty :: "'k fifo_eviction_policy \<Rightarrow> bool" where
  "fifo_empty s = (fifo_key_exists s = [])"

definition fifo_size :: "'k fifo_eviction_policy \<Rightarrow> nat" where
  "fifo_size s = length (filter snd (fifo_key_exists s))"

definition fifo_clear :: "'k fifo_eviction_policy \<Rightarrow> 'k fifo_eviction_policy" where
  "fifo_clear s = s\<lparr>fifo_insertion_queue := [], fifo_key_exists := []\<rparr>"

subsection \<open>LFU\<close>

text \<open>
  \<^verbatim>\<open>m_key_frequency\<close> is an \<^verbatim>\<open>unordered_map<key_t, std::size_t>\<close> (an association
  list with one entry for each key), \<^verbatim>\<open>m_frequency_buckets\<close> a
  \<^verbatim>\<open>std::map<std::size_t, std::list<key_t>>\<close>: an association list kept in increasing
  order of frequency, so that \<^verbatim>\<open>begin()\<close> is its head and \<^verbatim>\<open>rbegin()\<close> its last entry.
\<close>

fun ordered_map_assign :: "nat \<Rightarrow> 'v \<Rightarrow> (nat \<times> 'v) list \<Rightarrow> (nat \<times> 'v) list" where
  "ordered_map_assign f v [] = [(f, v)]"
| "ordered_map_assign f v ((g, w) # m) =
     (if f < g then (f, v) # (g, w) # m
      else if f = g then (f, v) # m
      else (g, w) # ordered_map_assign f v m)"

definition ordered_map_erase :: "nat \<Rightarrow> (nat \<times> 'v) list \<Rightarrow> (nat \<times> 'v) list" where
  "ordered_map_erase f m = filter (\<lambda>entry. fst entry \<noteq> f) m"

definition bucket_at :: "(nat \<times> 'k list) list \<Rightarrow> nat \<Rightarrow> 'k list" where
  \<comment> \<open>\<^verbatim>\<open>m_frequency_buckets[f]\<close>: \<^verbatim>\<open>operator[]\<close> creates an empty list where there is none\<close>
  "bucket_at m f = (case map_of m f of None \<Rightarrow> [] | Some bucket \<Rightarrow> bucket)"

definition bucket_push_back :: "nat \<Rightarrow> 'k \<Rightarrow> (nat \<times> 'k list) list \<Rightarrow> (nat \<times> 'k list) list" where
  \<comment> \<open>\<^verbatim>\<open>m_frequency_buckets[f].push_back(k)\<close>\<close>
  "bucket_push_back f k m = ordered_map_assign f (bucket_at m f @ [k]) m"

definition erase_last_node :: "'k \<Rightarrow> 'k list \<Rightarrow> 'k list" where
  \<comment> \<open>\<^verbatim>\<open>bucket.erase(m_key_to_iterator[k])\<close>: the buckets are filled by \<^verbatim>\<open>push_back\<close>, the
      handle designates the last node that holds the key\<close>
  "erase_last_node k bucket = rev (remove1 k (rev bucket))"

definition bucket_erase_key :: "nat \<Rightarrow> 'k \<Rightarrow> (nat \<times> 'k list) list \<Rightarrow> (nat \<times> 'k list) list" where
  \<comment> \<open>erase the key's node from the bucket found at \<open>f\<close>, then \<^verbatim>\<open>// Clean up empty bucket\<close>\<close>
  "bucket_erase_key f k m =
     (let bucket = erase_last_node k (bucket_at m f)
      in if bucket = [] then ordered_map_erase f m else ordered_map_assign f bucket m)"

fun first_nonempty_bucket :: "(nat \<times> 'k list) list \<Rightarrow> 'k option" where
  "first_nonempty_bucket [] = None"
| "first_nonempty_bucket ((f, []) # m) = first_nonempty_bucket m"
| "first_nonempty_bucket ((f, front # bucket) # m) = Some front"

record 'k lfu_eviction_policy =
  lfu_key_frequency :: "('k \<times> nat) list"
  lfu_frequency_buckets :: "(nat \<times> 'k list) list"
  lfu_key_to_iterator :: "'k set"

definition new_lfu_eviction_policy :: "'k lfu_eviction_policy" where
  "new_lfu_eviction_policy =
     \<lparr>lfu_key_frequency = [], lfu_frequency_buckets = [], lfu_key_to_iterator = {}\<rparr>"

definition lfu_increment_frequency :: "'k \<Rightarrow> 'k lfu_eviction_policy \<Rightarrow> 'k lfu_eviction_policy" where
  "lfu_increment_frequency p_key s =
     (case map_of (lfu_key_frequency s) p_key of
        None \<Rightarrow> s
      | Some old_frequency \<Rightarrow>
          let new_frequency = size_t_add old_frequency 1;
              buckets =
                (if map_of (lfu_frequency_buckets s) old_frequency \<noteq> None
                    \<and> p_key \<in> lfu_key_to_iterator s
                 then bucket_erase_key old_frequency p_key (lfu_frequency_buckets s)
                 else lfu_frequency_buckets s)
          in s\<lparr>lfu_key_frequency := AList.update p_key new_frequency (lfu_key_frequency s),
               lfu_frequency_buckets := bucket_push_back new_frequency p_key buckets,
               lfu_key_to_iterator := insert p_key (lfu_key_to_iterator s)\<rparr>)"

definition lfu_on_access :: "'k \<Rightarrow> 'k lfu_eviction_policy \<Rightarrow> 'k lfu_eviction_policy" where
  "lfu_on_access p_key s = lfu_increment_frequency p_key s"

definition lfu_on_insert :: "'k \<Rightarrow> 'k lfu_eviction_policy \<Rightarrow> 'k lfu_eviction_policy" where
  "lfu_on_insert p_key s =
     s\<lparr>lfu_key_frequency := AList.update p_key 1 (lfu_key_frequency s),
       lfu_frequency_buckets := bucket_push_back 1 p_key (lfu_frequency_buckets s),
       lfu_key_to_iterator := insert p_key (lfu_key_to_iterator s)\<rparr>"

definition lfu_on_update :: "'k \<Rightarrow> 'k lfu_eviction_policy \<Rightarrow> 'k lfu_eviction_policy" where
  "lfu_on_update p_key s = lfu_increment_frequency p_key s"

definition lfu_select_victim ::
  "'k lfu_eviction_policy \<Rightarrow> ('k, 'k lfu_eviction_policy) outcome" where
  "lfu_select_victim s =
     (if lfu_frequency_buckets s = []
      then Throws (Runtime_error ''Cannot select victim from empty LFU policy'') s
      else case first_nonempty_bucket (lfu_frequency_buckets s) of
             None \<Rightarrow> Throws (Runtime_error ''Cannot select victim from empty LFU policy'') s
           | Some front \<Rightarrow> Returns front s)"

definition lfu_remove_key :: "'k \<Rightarrow> 'k lfu_eviction_policy \<Rightarrow> 'k lfu_eviction_policy" where
  "lfu_remove_key p_key s =
     (case map_of (lfu_key_frequency s) p_key of
        None \<Rightarrow> s
      | Some frequency \<Rightarrow>
          let s1 =
                (if map_of (lfu_frequency_buckets s) frequency \<noteq> None
                    \<and> p_key \<in> lfu_key_to_iterator s
                 then s\<lparr>lfu_frequency_buckets :=
                          bucket_erase_key frequency p_key (lfu_frequency_buckets s),
                        lfu_key_to_iterator := lfu_key_to_iterator s - {p_key}\<rparr>
                 else s)
          in s1\<lparr>lfu_key_frequency := AList.delete p_key (lfu_key_frequency s1)\<rparr>)"

definition lfu_empty :: "'k lfu_eviction_policy \<Rightarrow> bool" where
  "lfu_empty s = (lfu_key_frequency s = [])"

definition lfu_size :: "'k lfu_eviction_policy \<Rightarrow> nat" where
  "lfu_size s = length (lfu_key_frequency s)"

definition lfu_clear :: "'k lfu_eviction_policy \<Rightarrow> 'k lfu_eviction_policy" where
  "lfu_clear s =
     s\<lparr>lfu_key_frequency := [], lfu_frequency_buckets := [], lfu_key_to_iterator := {}\<rparr>"

subsection \<open>MFU\<close>

record 'k mfu_eviction_policy =
  mfu_key_frequency :: "('k \<times> nat) list"
  mfu_frequency_buckets :: "(nat \<times> 'k list) list"
  mfu_key_to_iterator :: "'k set"

definition new_mfu_eviction_policy :: "'k mfu_eviction_policy" where
  "new_mfu_eviction_policy =
     \<lparr>mfu_key_frequency = [], mfu_frequency_buckets = [], mfu_key_to_iterator = {}\<rparr>"

definition mfu_increment_frequency :: "'k \<Rightarrow> 'k mfu_eviction_policy \<Rightarrow> 'k mfu_eviction_policy" where
  "mfu_increment_frequency p_key s =
     (case map_of (mfu_key_frequency s) p_key of
        None \<Rightarrow> s
      | Some old_frequency \<Rightarrow>
          let new_frequency = size_t_add old_frequency 1;
              buckets =
                (if map_of (mfu_frequency_buckets s) old_frequency \<noteq> None
                    \<and> p_key \<in> mfu_key_to_iterator s
                 then bucket_erase_key old_frequency p_key (mfu_frequency_buckets s)
                 else mfu_frequency_buckets s)
          in s\<lparr>mfu_key_frequency := AList.update p_key new_frequency (mfu_key_frequency s),
               mfu_frequency_buckets := bucket_push_back new_frequency p_key buckets,
               mfu_key_to_iterator := insert p_key (mfu_key_to_iterator s)\<rparr>)"

definition mfu_on_access :: "'k \<Rightarrow> 'k mfu_eviction_policy \<Rightarrow> 'k mfu_eviction_policy" where
  "mfu_on_access p_key s = mfu_increment_frequency p_key s"

definition mfu_on_insert :: "'k \<Rightarrow> 'k mfu_eviction_policy \<Rightarrow> 'k mfu_eviction_policy" where
  "mfu_on_insert p_key s =
     s\<lparr>mfu_key_frequency := AList.update p_key 1 (mfu_key_frequency s),
       mfu_frequency_buckets := bucket_push_back 1 p_key (mfu_frequency_buckets s),
       mfu_key_to_iterator := insert p_key (mfu_key_to_iterator s)\<rparr>"

definition mfu_on_update :: "'k \<Rightarrow> 'k mfu_eviction_policy \<Rightarrow> 'k mfu_eviction_policy" where
  "mfu_on_update p_key s = mfu_increment_frequency p_key s"

definition mfu_select_victim ::
  "'k mfu_eviction_policy \<Rightarrow> ('k, 'k mfu_eviction_policy) outcome" where
  "mfu_select_victim s =
     (if mfu_frequency_buckets s = []
      then Throws (Runtime_error ''Cannot select victim from empty MFU policy'') s
      else case first_nonempty_bucket (rev (mfu_frequency_buckets s)) of
             None \<Rightarrow> Throws (Runtime_error ''Cannot select victim from empty MFU policy'') s
           | Some front \<Rightarrow> Returns front s)"

definition mfu_remove_key :: "'k \<Rightarrow> 'k mfu_eviction_policy \<Rightarrow> 'k mfu_eviction_policy" where
  "mfu_remove_key p_key s =
     (case map_of (mfu_key_frequency s) p_key of
        None \<Rightarrow> s
      | Some frequency \<Rightarrow>
          let s1 =
                (if map_of (mfu_frequency_buckets s) frequency \<noteq> None
                    \<and> p_key \<in> mfu_key_to_iterator s
                 then s\<lparr>mfu_frequency_buckets :=
                          bucket_erase_key frequency p_key (mfu_frequency_buckets s),
                        mfu_key_to_iterator := mfu_key_to_iterator s - {p_key}\<rparr>
                 else s)
          in s1\<lparr>mfu_key_frequency := AList.delete p_key (mfu_key_frequency s1)\<rparr>)"

definition mfu_empty :: "'k mfu_eviction_policy \<Rightarrow> bool" where
  "mfu_empty s = (mfu_key_frequency s = [])"

definition mfu_size :: "'k mfu_eviction_policy \<Rightarrow> nat" where
  "mfu_size s = length (mfu_key_frequency s)"

definition mfu_clear :: "'k mfu_eviction_policy \<Rightarrow> 'k mfu_eviction_policy" where
  "mfu_clear s =
     s\<lparr>mfu_key_frequency := [], mfu_frequency_buckets := [], mfu_key_to_iterator := {}\<rparr>"

subsection \<open>RANDOM\<close>

text \<open>
  The policy draws from the C library's generator, which is state of the whole process:
  \<^verbatim>\<open>std::srand(seed)\<close> sets the seed, and the \<open>i\<close>-th call of \<^verbatim>\<open>std::rand()\<close> after it
  returns a value that the library's algorithm determines from the seed and \<open>i\<close> (the
  same sequence follows the same seed; the algorithm itself is the implementation's).
  The generator is modelled by that algorithm, the seed set last and the number of calls
  made since.  The constructor of the policy calls
  \<^verbatim>\<open>std::srand(static_cast<unsigned int>(std::time(nullptr)))\<close>; the reading of the clock
  is an input of the constructor, and the conversion to \<^verbatim>\<open>unsigned int\<close> keeps its low
  32 bits.
\<close>

record c_rand =
  rand_algorithm :: "nat \<Rightarrow> nat \<Rightarrow> nat"
  rand_seed :: nat
  rand_calls :: nat

definition std_rand :: "c_rand \<Rightarrow> nat \<times> c_rand" where
  "std_rand g =
     (rand_algorithm g (rand_seed g) (rand_calls g), g\<lparr>rand_calls := rand_calls g + 1\<rparr>)"

definition std_srand :: "nat \<Rightarrow> c_rand \<Rightarrow> c_rand" where
  "std_srand seed g = g\<lparr>rand_seed := seed, rand_calls := 0\<rparr>"

record 'k random_eviction_policy =
  random_keys :: "'k list"
  random_key_to_index :: "'k \<rightharpoonup> nat"
  random_initialized :: bool

definition initialize_random ::
  "nat \<Rightarrow> 'k random_eviction_policy \<times> c_rand \<Rightarrow> 'k random_eviction_policy \<times> c_rand" where
  "initialize_random now sg =
     (case sg of (s, g) \<Rightarrow>
        if \<not> random_initialized s
        then (s\<lparr>random_initialized := True\<rparr>, std_srand (now mod 2 ^ 32) g)
        else (s, g))"

definition new_random_eviction_policy ::
  "nat \<Rightarrow> c_rand \<Rightarrow> 'k random_eviction_policy \<times> c_rand" where
  "new_random_eviction_policy now g =
     initialize_random now
       (\<lparr>random_keys = [], random_key_to_index = Map.empty, random_initialized = False\<rparr>, g)"

definition random_on_access :: "'k \<Rightarrow> 'k random_eviction_policy \<Rightarrow> 'k random_eviction_policy" where
  "random_on_access p_key s = s"

definition random_on_insert :: "'k \<Rightarrow> 'k random_eviction_policy \<Rightarrow> 'k random_eviction_policy" where
  "random_on_insert p_key s =
     (let new_index = length (random_keys s)
      in s\<lparr>random_keys := random_keys s @ [p_key],
           random_key_to_index := (random_key_to_index s)(p_key \<mapsto> new_index)\<rparr>)"

definition random_on_update :: "'k \<Rightarrow> 'k random_eviction_policy \<Rightarrow> 'k random_eviction_policy" where
  "random_on_update p_key s = s"

definition random_select_victim ::
  "'k random_eviction_policy \<Rightarrow> c_rand \<Rightarrow> ('k, 'k random_eviction_policy \<times> c_rand) outcome" where
  "random_select_victim s g =
     (if random_keys s = []
      then Throws (Runtime_error ''Cannot select victim from empty random policy'') (s, g)
      else case std_rand g of
             (r, g') \<Rightarrow>
               let random_index = r mod length (random_keys s)
               in Returns (random_keys s ! random_index) (s, g'))"

text \<open>
  \<^verbatim>\<open>remove_key\<close> reads \<^verbatim>\<open>m_keys[m_keys.size() - 1]\<close> and writes \<^verbatim>\<open>m_keys[key_index]\<close>
  without a bounds check.  Both are in range whenever every index stored in
  \<^verbatim>\<open>m_key_to_index\<close> is a position of \<^verbatim>\<open>m_keys\<close>, which the operations maintain.
\<close>

definition random_remove_key :: "'k \<Rightarrow> 'k random_eviction_policy \<Rightarrow> 'k random_eviction_policy" where
  "random_remove_key p_key s =
     (case random_key_to_index s p_key of
        None \<Rightarrow> s
      | Some key_index \<Rightarrow>
          let last_index = length (random_keys s) - 1;
              last_key = random_keys s ! last_index;
              keys = (if key_index \<noteq> last_index
                      then (random_keys s)[key_index := last_key] else random_keys s);
              index = (if key_index \<noteq> last_index
                       then (random_key_to_index s)(last_key \<mapsto> key_index)
                       else random_key_to_index s)
          in s\<lparr>random_keys := butlast keys, random_key_to_index := index(p_key := None)\<rparr>)"

definition random_empty :: "'k random_eviction_policy \<Rightarrow> bool" where
  "random_empty s = (random_keys s = [])"

definition random_size :: "'k random_eviction_policy \<Rightarrow> nat" where
  "random_size s = length (random_keys s)"

definition random_clear :: "'k random_eviction_policy \<Rightarrow> 'k random_eviction_policy" where
  "random_clear s = s\<lparr>random_keys := [], random_key_to_index := Map.empty\<rparr>"

subsection \<open>The interface \<^verbatim>\<open>eviction_policy_base\<close>\<close>

text \<open>
  The cache holds its eviction policy behind the virtual interface
  \<^verbatim>\<open>eviction_policy_base\<close>; the six classes that implement it form a sum, and a
  virtual call dispatches on the summand.
\<close>

datatype 'k eviction_policy =
    LRU "'k lru_eviction_policy"
  | MRU "'k mru_eviction_policy"
  | FIFO "'k fifo_eviction_policy"
  | LFU "'k lfu_eviction_policy"
  | MFU "'k mfu_eviction_policy"
  | RANDOM "'k random_eviction_policy"

fun eviction_on_access :: "'k \<Rightarrow> 'k eviction_policy \<Rightarrow> 'k eviction_policy" where
  "eviction_on_access k (LRU s) = LRU (lru_on_access k s)"
| "eviction_on_access k (MRU s) = MRU (mru_on_access k s)"
| "eviction_on_access k (FIFO s) = FIFO (fifo_on_access k s)"
| "eviction_on_access k (LFU s) = LFU (lfu_on_access k s)"
| "eviction_on_access k (MFU s) = MFU (mfu_on_access k s)"
| "eviction_on_access k (RANDOM s) = RANDOM (random_on_access k s)"

fun eviction_on_insert :: "'k \<Rightarrow> 'k eviction_policy \<Rightarrow> 'k eviction_policy" where
  "eviction_on_insert k (LRU s) = LRU (lru_on_insert k s)"
| "eviction_on_insert k (MRU s) = MRU (mru_on_insert k s)"
| "eviction_on_insert k (FIFO s) = FIFO (fifo_on_insert k s)"
| "eviction_on_insert k (LFU s) = LFU (lfu_on_insert k s)"
| "eviction_on_insert k (MFU s) = MFU (mfu_on_insert k s)"
| "eviction_on_insert k (RANDOM s) = RANDOM (random_on_insert k s)"

fun eviction_on_update :: "'k \<Rightarrow> 'k eviction_policy \<Rightarrow> 'k eviction_policy" where
  "eviction_on_update k (LRU s) = LRU (lru_on_update k s)"
| "eviction_on_update k (MRU s) = MRU (mru_on_update k s)"
| "eviction_on_update k (FIFO s) = FIFO (fifo_on_update k s)"
| "eviction_on_update k (LFU s) = LFU (lfu_on_update k s)"
| "eviction_on_update k (MFU s) = MFU (mfu_on_update k s)"
| "eviction_on_update k (RANDOM s) = RANDOM (random_on_update k s)"

fun eviction_remove_key :: "'k \<Rightarrow> 'k eviction_policy \<Rightarrow> 'k eviction_policy" where
  "eviction_remove_key k (LRU s) = LRU (lru_remove_key k s)"
| "eviction_remove_key k (MRU s) = MRU (mru_remove_key k s)"
| "eviction_remove_key k (FIFO s) = FIFO (fifo_remove_key k s)"
| "eviction_remove_key k (LFU s) = LFU (lfu_remove_key k s)"
| "eviction_remove_key k (MFU s) = MFU (mfu_remove_key k s)"
| "eviction_remove_key k (RANDOM s) = RANDOM (random_remove_key k s)"

fun eviction_empty :: "'k eviction_policy \<Rightarrow> bool" where
  "eviction_empty (LRU s) = lru_empty s"
| "eviction_empty (MRU s) = mru_empty s"
| "eviction_empty (FIFO s) = fifo_empty s"
| "eviction_empty (LFU s) = lfu_empty s"
| "eviction_empty (MFU s) = mfu_empty s"
| "eviction_empty (RANDOM s) = random_empty s"

fun eviction_size :: "'k eviction_policy \<Rightarrow> nat" where
  "eviction_size (LRU s) = lru_size s"
| "eviction_size (MRU s) = mru_size s"
| "eviction_size (FIFO s) = fifo_size s"
| "eviction_size (LFU s) = lfu_size s"
| "eviction_size (MFU s) = mfu_size s"
| "eviction_size (RANDOM s) = random_size s"

fun eviction_clear :: "'k eviction_policy \<Rightarrow> 'k eviction_policy" where
  "eviction_clear (LRU s) = LRU (lru_clear s)"
| "eviction_clear (MRU s) = MRU (mru_clear s)"
| "eviction_clear (FIFO s) = FIFO (fifo_clear s)"
| "eviction_clear (LFU s) = LFU (lfu_clear s)"
| "eviction_clear (MFU s) = MFU (mfu_clear s)"
| "eviction_clear (RANDOM s) = RANDOM (random_clear s)"

definition lift_outcome :: "('s \<Rightarrow> 't) \<Rightarrow> ('a, 's) outcome \<Rightarrow> ('a, 't) outcome" where
  "lift_outcome f r = (case r of Returns a s \<Rightarrow> Returns a (f s) | Throws e s \<Rightarrow> Throws e (f s))"

fun eviction_select_victim ::
  "'k eviction_policy \<Rightarrow> c_rand \<Rightarrow> ('k, 'k eviction_policy \<times> c_rand) outcome" where
  "eviction_select_victim (LRU s) g = lift_outcome (\<lambda>s'. (LRU s', g)) (lru_select_victim s)"
| "eviction_select_victim (MRU s) g = lift_outcome (\<lambda>s'. (MRU s', g)) (mru_select_victim s)"
| "eviction_select_victim (FIFO s) g = lift_outcome (\<lambda>s'. (FIFO s', g)) (fifo_select_victim s)"
| "eviction_select_victim (LFU s) g = lift_outcome (\<lambda>s'. (LFU s', g)) (lfu_select_victim s)"
| "eviction_select_victim (MFU s) g = lift_outcome (\<lambda>s'. (MFU s', g)) (mfu_select_victim s)"
| "eviction_select_victim (RANDOM s) g =
     lift_outcome (\<lambda>(s', g'). (RANDOM s', g')) (random_select_victim s g)"

section \<open>Storage policy\<close>

text \<open>
  \<^verbatim>\<open>hash_storage_policy\<close> wraps an \<^verbatim>\<open>unordered_map<key_t, value_t>\<close>, modelled by an
  association list with one entry for each key (\<^verbatim>\<open>size()\<close> is its length).  The other
  storage classes (\<^verbatim>\<open>reserved_hash_storage_policy\<close>, \<^verbatim>\<open>compact_storage_policy\<close>,
  \<^verbatim>\<open>debug_storage_policy\<close>) perform the same map operations and add bucket tuning or
  operation counters.
\<close>

type_synonym ('k, 'v) hash_storage_policy = "('k \<times> 'v) list"

definition storage_insert ::
  "'k \<Rightarrow> 'v \<Rightarrow> ('k, 'v) hash_storage_policy \<Rightarrow> bool \<times> ('k, 'v) hash_storage_policy" where
  "storage_insert p_key p_value m =
     (let is_new_key = (map_of m p_key = None)
      in (is_new_key, AList.update p_key p_value m))"

definition storage_find :: "'k \<Rightarrow> ('k, 'v) hash_storage_policy \<Rightarrow> 'v option" where
  "storage_find p_key m = map_of m p_key"

definition storage_erase ::
  "'k \<Rightarrow> ('k, 'v) hash_storage_policy \<Rightarrow> bool \<times> ('k, 'v) hash_storage_policy" where
  "storage_erase p_key m = (map_of m p_key \<noteq> None, AList.delete p_key m)"

definition storage_contains :: "'k \<Rightarrow> ('k, 'v) hash_storage_policy \<Rightarrow> bool" where
  "storage_contains p_key m = (map_of m p_key \<noteq> None)"

definition storage_size :: "('k, 'v) hash_storage_policy \<Rightarrow> nat" where
  "storage_size m = length m"

definition storage_empty :: "('k, 'v) hash_storage_policy \<Rightarrow> bool" where
  "storage_empty m = (m = [])"

definition storage_clear :: "('k, 'v) hash_storage_policy \<Rightarrow> ('k, 'v) hash_storage_policy" where
  "storage_clear m = []"

section \<open>Access policies\<close>

text \<open>
  The counters of the access policies are \<^verbatim>\<open>std::size_t\<close>s incremented without a guard.
  \<^verbatim>\<open>time_decay_access_policy::on_access\<close> computes
  \<^verbatim>\<open>m_current_time % m_decay_interval\<close> without a test of the divisor; the default
  interval is 100 and \<^verbatim>\<open>set_decay_interval\<close> stores at least 1, an interval of 0 comes
  from the argument of the policy's constructor.
\<close>

datatype 'k access_policy =
    Update_on_access
  | No_update_on_access
  | Threshold_access (access_counts: "'k \<rightharpoonup> nat") (threshold: nat)
  | Time_decay_access (last_access_time: "'k \<rightharpoonup> nat") (current_time: nat) (decay_interval: nat)

definition apply_decay :: "nat \<Rightarrow> nat \<Rightarrow> ('k \<rightharpoonup> nat) \<Rightarrow> ('k \<rightharpoonup> nat)" where
  "apply_decay m_current_time m_decay_interval m =
     (let cutoff_time =
            (if m_current_time > size_t_mul m_decay_interval 2
             then m_current_time - size_t_mul m_decay_interval 2 else 0)
      in (\<lambda>k. case m k of
                None \<Rightarrow> None
              | Some t \<Rightarrow> if t < cutoff_time then None else Some t))"

fun access_on_access :: "'k \<Rightarrow> 'k access_policy \<Rightarrow> (bool, 'k access_policy) outcome" where
  "access_on_access p_key Update_on_access = Returns True Update_on_access"
| "access_on_access p_key No_update_on_access = Returns False No_update_on_access"
| "access_on_access p_key (Threshold_access counts m_threshold) =
     (let count = size_t_add (case counts p_key of None \<Rightarrow> 0 | Some c \<Rightarrow> c) 1
      in Returns (count \<ge> m_threshold)
           (Threshold_access (counts(p_key \<mapsto> count)) m_threshold))"
| "access_on_access p_key (Time_decay_access stamps m_current_time m_decay_interval) =
     (let now = size_t_add m_current_time 1;
          stamps1 = stamps(p_key \<mapsto> now)
      in if m_decay_interval = 0
         then Throws Division_by_zero (Time_decay_access stamps1 now m_decay_interval)
         else let stamps2 = (if now mod m_decay_interval = 0
                             then apply_decay now m_decay_interval stamps1 else stamps1)
              in Returns True (Time_decay_access stamps2 now m_decay_interval))"

fun access_on_miss :: "'k \<Rightarrow> 'k access_policy \<Rightarrow> bool \<times> 'k access_policy" where
  "access_on_miss p_key Update_on_access = (True, Update_on_access)"
| "access_on_miss p_key No_update_on_access = (True, No_update_on_access)"
| "access_on_miss p_key (Threshold_access counts m_threshold) =
     (True, Threshold_access counts m_threshold)"
| "access_on_miss p_key (Time_decay_access stamps m_current_time m_decay_interval) =
     (True, Time_decay_access stamps (size_t_add m_current_time 1) m_decay_interval)"

section \<open>Capacity policies\<close>

text \<open>
  The fixed and dynamic policies subtract only under a guard that excludes the wrap of
  the difference, and add 1 to it without one.
  \<^verbatim>\<open>soft_capacity_policy::eviction_count\<close> subtracts the target under a guard on the
  hard maximum, and the memory policy multiplies a size by the item size estimate.
\<close>

subsection \<open>Fixed capacity\<close>

record fixed_capacity_policy =
  fixed_m_capacity :: nat

definition fixed_capacity :: "fixed_capacity_policy \<Rightarrow> nat" where
  "fixed_capacity p = fixed_m_capacity p"

definition fixed_set_capacity :: "nat \<Rightarrow> fixed_capacity_policy \<Rightarrow> fixed_capacity_policy" where
  "fixed_set_capacity p_new_capacity p = p\<lparr>fixed_m_capacity := p_new_capacity\<rparr>"

definition fixed_needs_eviction :: "nat \<Rightarrow> fixed_capacity_policy \<Rightarrow> bool" where
  "fixed_needs_eviction p_current_size p = (p_current_size \<ge> fixed_m_capacity p)"

definition fixed_eviction_count :: "nat \<Rightarrow> fixed_capacity_policy \<Rightarrow> nat" where
  "fixed_eviction_count p_current_size p =
     (if p_current_size \<ge> fixed_m_capacity p
      then size_t_add (p_current_size - fixed_m_capacity p) 1
      else 0)"

subsection \<open>Dynamic capacity\<close>

text \<open>
  The growth and shrink factors are \<^verbatim>\<open>double\<close>s used only by
  \<^verbatim>\<open>consider_capacity_adjustment\<close>, which the cache never calls; they are left out.
\<close>

record dynamic_capacity_policy =
  dynamic_base_capacity :: nat
  dynamic_current_capacity :: nat
  dynamic_min_capacity :: nat
  dynamic_max_capacity :: nat

definition dynamic_capacity :: "dynamic_capacity_policy \<Rightarrow> nat" where
  "dynamic_capacity p = dynamic_current_capacity p"

definition dynamic_set_capacity :: "nat \<Rightarrow> dynamic_capacity_policy \<Rightarrow> dynamic_capacity_policy" where
  "dynamic_set_capacity p_new_capacity p =
     p\<lparr>dynamic_base_capacity := p_new_capacity,
       dynamic_current_capacity :=
         max (dynamic_min_capacity p) (min p_new_capacity (dynamic_max_capacity p))\<rparr>"

definition dynamic_needs_eviction :: "nat \<Rightarrow> dynamic_capacity_policy \<Rightarrow> bool" where
  "dynamic_needs_eviction p_current_size p = (p_current_size \<ge> dynamic_current_capacity p)"

definition dynamic_eviction_count :: "nat \<Rightarrow> dynamic_capacity_policy \<Rightarrow> nat" where
  "dynamic_eviction_count p_current_size p =
     (if p_current_size \<ge> dynamic_current_capacity p
      then size_t_add (p_current_size - dynamic_current_capacity p) 1
      else 0)"

subsection \<open>Soft capacity\<close>

text \<open>
  The hard maximum is computed in floating point,
  \<^verbatim>\<open>static_cast<std::size_t>(static_cast<double>(t) * (1.0 + m_overage_tolerance))\<close>,
  at construction and in \<^verbatim>\<open>set_capacity\<close>.  Floating point is not modelled: the
  policy carries this conversion as the function \<open>soft_hard_maximum\<close>, and
  \<^verbatim>\<open>m_max_capacity\<close> is a field like in the source.
\<close>

record soft_capacity_policy =
  soft_target_capacity :: nat
  soft_max_capacity :: nat
  soft_hard_maximum :: "nat \<Rightarrow> nat"

definition new_soft_capacity_policy :: "(nat \<Rightarrow> nat) \<Rightarrow> nat \<Rightarrow> soft_capacity_policy" where
  "new_soft_capacity_policy hard_maximum p_target_capacity =
     \<lparr>soft_target_capacity = p_target_capacity,
      soft_max_capacity = hard_maximum p_target_capacity,
      soft_hard_maximum = hard_maximum\<rparr>"

definition soft_capacity :: "soft_capacity_policy \<Rightarrow> nat" where
  "soft_capacity p = soft_target_capacity p"

definition soft_set_capacity :: "nat \<Rightarrow> soft_capacity_policy \<Rightarrow> soft_capacity_policy" where
  "soft_set_capacity p_new_capacity p =
     p\<lparr>soft_target_capacity := p_new_capacity,
       soft_max_capacity := soft_hard_maximum p p_new_capacity\<rparr>"

definition soft_needs_eviction :: "nat \<Rightarrow> soft_capacity_policy \<Rightarrow> bool" where
  "soft_needs_eviction p_current_size p = (p_current_size \<ge> soft_max_capacity p)"

definition soft_eviction_count :: "nat \<Rightarrow> soft_capacity_policy \<Rightarrow> nat" where
  "soft_eviction_count p_current_size p =
     (if p_current_size \<ge> soft_max_capacity p
      then size_t_add (size_t_sub p_current_size (soft_target_capacity p)) 1
      else if p_current_size > soft_target_capacity p
      then 1
      else 0)"

subsection \<open>Memory capacity\<close>

record memory_capacity_policy =
  memory_limit :: nat
  memory_current_usage :: nat
  memory_item_size_estimate :: nat

definition memory_capacity :: "memory_capacity_policy \<Rightarrow> nat" where
  "memory_capacity p =
     (if memory_item_size_estimate p > 0 then memory_limit p div memory_item_size_estimate p else 0)"

definition memory_set_capacity :: "nat \<Rightarrow> memory_capacity_policy \<Rightarrow> memory_capacity_policy" where
  "memory_set_capacity p_new_capacity p =
     p\<lparr>memory_limit := size_t_mul p_new_capacity (memory_item_size_estimate p)\<rparr>"

definition memory_needs_eviction ::
  "nat \<Rightarrow> memory_capacity_policy \<Rightarrow> bool \<times> memory_capacity_policy" where
  "memory_needs_eviction p_current_size p =
     (let usage = size_t_mul p_current_size (memory_item_size_estimate p)
      in (usage \<ge> memory_limit p, p\<lparr>memory_current_usage := usage\<rparr>))"

text \<open>
  \<^verbatim>\<open>eviction_count\<close> returns
  \<^verbatim>\<open>(excess_memory + m_item_size_estimate - 1) / m_item_size_estimate\<close>.  The result is
  \<open>None\<close> when the divisor is 0.
\<close>

definition memory_eviction_count :: "nat \<Rightarrow> memory_capacity_policy \<Rightarrow> nat option" where
  "memory_eviction_count p_current_size p =
     (let estimated_usage = size_t_mul p_current_size (memory_item_size_estimate p)
      in if estimated_usage \<ge> memory_limit p
         then (let excess_memory =
                     size_t_add (size_t_sub estimated_usage (memory_limit p))
                       (memory_item_size_estimate p)
               in if memory_item_size_estimate p = 0 then None
                  else Some (size_t_sub (size_t_add excess_memory (memory_item_size_estimate p)) 1
                               div memory_item_size_estimate p))
         else Some 0)"

subsection \<open>The interface \<^verbatim>\<open>capacity_policy_base\<close>\<close>

datatype capacity_policy =
    Fixed fixed_capacity_policy
  | Dynamic dynamic_capacity_policy
  | Soft soft_capacity_policy
  | Memory memory_capacity_policy

fun capacity_capacity :: "capacity_policy \<Rightarrow> nat" where
  "capacity_capacity (Fixed p) = fixed_capacity p"
| "capacity_capacity (Dynamic p) = dynamic_capacity p"
| "capacity_capacity (Soft p) = soft_capacity p"
| "capacity_capacity (Memory p) = memory_capacity p"

fun capacity_set_capacity :: "nat \<Rightarrow> capacity_policy \<Rightarrow> capacity_policy" where
  "capacity_set_capacity n (Fixed p) = Fixed (fixed_set_capacity n p)"
| "capacity_set_capacity n (Dynamic p) = Dynamic (dynamic_set_capacity n p)"
| "capacity_set_capacity n (Soft p) = Soft (soft_set_capacity n p)"
| "capacity_set_capacity n (Memory p) = Memory (memory_set_capacity n p)"

fun capacity_needs_eviction :: "nat \<Rightarrow> capacity_policy \<Rightarrow> bool \<times> capacity_policy" where
  "capacity_needs_eviction n (Fixed p) = (fixed_needs_eviction n p, Fixed p)"
| "capacity_needs_eviction n (Dynamic p) = (dynamic_needs_eviction n p, Dynamic p)"
| "capacity_needs_eviction n (Soft p) = (soft_needs_eviction n p, Soft p)"
| "capacity_needs_eviction n (Memory p) =
     (case memory_needs_eviction n p of (b, p') \<Rightarrow> (b, Memory p'))"

fun capacity_eviction_count :: "nat \<Rightarrow> capacity_policy \<Rightarrow> nat option" where
  "capacity_eviction_count n (Fixed p) = Some (fixed_eviction_count n p)"
| "capacity_eviction_count n (Dynamic p) = Some (dynamic_eviction_count n p)"
| "capacity_eviction_count n (Soft p) = Some (soft_eviction_count n p)"
| "capacity_eviction_count n (Memory p) = memory_eviction_count n p"

section \<open>The policy-composed cache\<close>

text \<open>
  \<^verbatim>\<open>policy_based_cache\<close> owns one policy of each kind.  The record has a fifth
  component that is not a member of the class: the state of the process-wide C
  generator, which \<^verbatim>\<open>random_eviction_policy::select_victim\<close> reads and advances.
\<close>

record ('k, 'v) policy_based_cache =
  m_eviction_policy :: "'k eviction_policy"
  m_storage_policy :: "('k, 'v) hash_storage_policy"
  m_access_policy :: "'k access_policy"
  m_capacity_policy :: capacity_policy
  process_rand :: c_rand

text \<open>
  The template arguments select the policy classes; the constructor default-constructs
  the eviction, storage and access policies and passes \<^verbatim>\<open>p_capacity\<close> to the capacity
  policy.  The defaults of the remaining constructor parameters are those of the source
  (threshold 2, decay interval 100, minimum 10 and maximum 1000).  A soft capacity
  template carries the floating-point conversion, a memory capacity template the value
  of \<^verbatim>\<open>sizeof(key_t) + sizeof(value_t)\<close>.
\<close>

datatype eviction_template =
  Lru_eviction | Mru_eviction | Fifo_eviction | Lfu_eviction | Mfu_eviction | Random_eviction

datatype access_template =
  Update_on_access_t | No_update_on_access_t | Threshold_access_t | Time_decay_access_t

datatype capacity_template =
  Fixed_capacity | Dynamic_capacity | Soft_capacity "nat \<Rightarrow> nat" | Memory_capacity nat

fun new_eviction_policy ::
  "eviction_template \<Rightarrow> nat \<Rightarrow> c_rand \<Rightarrow> 'k eviction_policy \<times> c_rand" where
  "new_eviction_policy Lru_eviction now g = (LRU new_lru_eviction_policy, g)"
| "new_eviction_policy Mru_eviction now g = (MRU new_mru_eviction_policy, g)"
| "new_eviction_policy Fifo_eviction now g = (FIFO new_fifo_eviction_policy, g)"
| "new_eviction_policy Lfu_eviction now g = (LFU new_lfu_eviction_policy, g)"
| "new_eviction_policy Mfu_eviction now g = (MFU new_mfu_eviction_policy, g)"
| "new_eviction_policy Random_eviction now g =
     (case new_random_eviction_policy now g of (s, g') \<Rightarrow> (RANDOM s, g'))"

fun new_access_policy :: "access_template \<Rightarrow> 'k access_policy" where
  "new_access_policy Update_on_access_t = Update_on_access"
| "new_access_policy No_update_on_access_t = No_update_on_access"
| "new_access_policy Threshold_access_t = Threshold_access Map.empty 2"
| "new_access_policy Time_decay_access_t = Time_decay_access Map.empty 0 100"

fun new_capacity_policy :: "capacity_template \<Rightarrow> nat \<Rightarrow> capacity_policy" where
  "new_capacity_policy Fixed_capacity p_capacity = Fixed \<lparr>fixed_m_capacity = p_capacity\<rparr>"
| "new_capacity_policy Dynamic_capacity p_capacity =
     Dynamic \<lparr>dynamic_base_capacity = p_capacity, dynamic_current_capacity = p_capacity,
              dynamic_min_capacity = 10, dynamic_max_capacity = 1000\<rparr>"
| "new_capacity_policy (Soft_capacity hard_maximum) p_capacity =
     Soft (new_soft_capacity_policy hard_maximum p_capacity)"
| "new_capacity_policy (Memory_capacity item_size) p_capacity =
     Memory \<lparr>memory_limit = p_capacity, memory_current_usage = 0,
             memory_item_size_estimate = item_size\<rparr>"

definition new_policy_based_cache ::
  "eviction_template \<Rightarrow> access_template \<Rightarrow> capacity_template \<Rightarrow> nat \<Rightarrow> nat \<Rightarrow> c_rand
     \<Rightarrow> ('k, 'v) policy_based_cache" where
  "new_policy_based_cache ev ac cp p_capacity now g =
     (case new_eviction_policy ev now g of
        (eviction, g') \<Rightarrow>
          \<lparr>m_eviction_policy = eviction,
           m_storage_policy = [],
           m_access_policy = new_access_policy ac,
           m_capacity_policy = new_capacity_policy cp p_capacity,
           process_rand = g'\<rparr>)"

text \<open>The body of the \<^verbatim>\<open>try\<close> block of \<^verbatim>\<open>evict_entries\<close>.\<close>

definition evict_one :: "('k, 'v) policy_based_cache \<Rightarrow> (unit, ('k, 'v) policy_based_cache) outcome" where
  "evict_one c =
     (case eviction_select_victim (m_eviction_policy c) (process_rand c) of
        Throws e (ev, g) \<Rightarrow> Throws e (c\<lparr>m_eviction_policy := ev, process_rand := g\<rparr>)
      | Returns victim_key (ev, g) \<Rightarrow>
          (case storage_erase victim_key (m_storage_policy c) of
             (was_erased, storage) \<Rightarrow>
               if was_erased
               then Returns ()
                      (c\<lparr>m_eviction_policy := eviction_remove_key victim_key ev,
                         m_storage_policy := storage, process_rand := g\<rparr>)
               else Throws (policy_error ''Eviction policy selected non-existent key'')
                      (c\<lparr>m_eviction_policy := ev, m_storage_policy := storage,
                         process_rand := g\<rparr>)))"

text \<open>
  The loop \<^verbatim>\<open>for (idx_for = 0; idx_for < p_count && !m_storage_policy->empty(); ++idx_for)\<close>,
  by recursion on the iterations that remain.  The handler
  \<^verbatim>\<open>catch (const std::runtime_error&) { break; }\<close> encloses the whole body.
\<close>

fun evict_entries ::
  "nat \<Rightarrow> ('k, 'v) policy_based_cache \<Rightarrow> (unit, ('k, 'v) policy_based_cache) outcome" where
  "evict_entries 0 c = Returns () c"
| "evict_entries (Suc remaining) c =
     (if storage_empty (m_storage_policy c) then Returns () c
      else case evict_one c of
             Throws p_error c' \<Rightarrow>
               if is_runtime_error p_error then Returns () c' else Throws p_error c'
           | Returns _ c' \<Rightarrow> evict_entries remaining c')"

definition evict_if_necessary_for_insertion ::
  "('k, 'v) policy_based_cache \<Rightarrow> (unit, ('k, 'v) policy_based_cache) outcome" where
  "evict_if_necessary_for_insertion c =
     (let current_size = storage_size (m_storage_policy c)
      in case capacity_needs_eviction current_size (m_capacity_policy c) of
           (needed, cp) \<Rightarrow>
             if needed
             then (case capacity_eviction_count current_size cp of
                     None \<Rightarrow> Throws Division_by_zero (c\<lparr>m_capacity_policy := cp\<rparr>)
                   | Some eviction_count \<Rightarrow>
                       evict_entries eviction_count (c\<lparr>m_capacity_policy := cp\<rparr>))
             else Returns () (c\<lparr>m_capacity_policy := cp\<rparr>))"

definition evict_if_necessary_for_capacity_change ::
  "('k, 'v) policy_based_cache \<Rightarrow> (unit, ('k, 'v) policy_based_cache) outcome" where
  "evict_if_necessary_for_capacity_change c =
     (let current_size = storage_size (m_storage_policy c)
      in case capacity_needs_eviction current_size (m_capacity_policy c) of
           (needed, cp) \<Rightarrow>
             if needed
             then (case capacity_eviction_count current_size cp of
                     None \<Rightarrow> Throws Division_by_zero (c\<lparr>m_capacity_policy := cp\<rparr>)
                   | Some eviction_count \<Rightarrow>
                       evict_entries eviction_count (c\<lparr>m_capacity_policy := cp\<rparr>))
             else Returns () (c\<lparr>m_capacity_policy := cp\<rparr>))"

definition put ::
  "'k \<Rightarrow> 'v \<Rightarrow> ('k, 'v) policy_based_cache \<Rightarrow> (unit, ('k, 'v) policy_based_cache) outcome" where
  "put p_key p_value c =
     (let is_new_key = \<not> storage_contains p_key (m_storage_policy c)
      in if is_new_key
         then (case evict_if_necessary_for_insertion c of
                 Throws e c' \<Rightarrow> Throws e c'
               | Returns _ c' \<Rightarrow>
                   Returns ()
                     (c'\<lparr>m_storage_policy := snd (storage_insert p_key p_value (m_storage_policy c')),
                        m_eviction_policy := eviction_on_insert p_key (m_eviction_policy c')\<rparr>))
         else Returns ()
                (c\<lparr>m_storage_policy := snd (storage_insert p_key p_value (m_storage_policy c)),
                   m_eviction_policy := eviction_on_update p_key (m_eviction_policy c)\<rparr>))"

definition get ::
  "'k \<Rightarrow> ('k, 'v) policy_based_cache \<Rightarrow> ('v, ('k, 'v) policy_based_cache) outcome" where
  "get p_key c =
     (case storage_find p_key (m_storage_policy c) of
        Some p_value \<Rightarrow>
          (case access_on_access p_key (m_access_policy c) of
             Throws e ap \<Rightarrow> Throws e (c\<lparr>m_access_policy := ap\<rparr>)
           | Returns should_update_eviction ap \<Rightarrow>
               Returns p_value
                 (c\<lparr>m_access_policy := ap,
                    m_eviction_policy :=
                      (if should_update_eviction
                       then eviction_on_access p_key (m_eviction_policy c)
                       else m_eviction_policy c)\<rparr>))
      | None \<Rightarrow>
          Throws (Out_of_range ''Key not found in cache'')
            (c\<lparr>m_access_policy := snd (access_on_miss p_key (m_access_policy c))\<rparr>))"

definition contains :: "'k \<Rightarrow> ('k, 'v) policy_based_cache \<Rightarrow> bool" where
  "contains p_key c = storage_contains p_key (m_storage_policy c)"

definition cache_size :: "('k, 'v) policy_based_cache \<Rightarrow> nat" where
  "cache_size c = storage_size (m_storage_policy c)"

definition cache_empty :: "('k, 'v) policy_based_cache \<Rightarrow> bool" where
  "cache_empty c = storage_empty (m_storage_policy c)"

definition capacity :: "('k, 'v) policy_based_cache \<Rightarrow> nat" where
  "capacity c = capacity_capacity (m_capacity_policy c)"

definition set_capacity ::
  "nat \<Rightarrow> ('k, 'v) policy_based_cache \<Rightarrow> (unit, ('k, 'v) policy_based_cache) outcome" where
  "set_capacity p_new_capacity c =
     evict_if_necessary_for_capacity_change
       (c\<lparr>m_capacity_policy := capacity_set_capacity p_new_capacity (m_capacity_policy c)\<rparr>)"

definition clear :: "('k, 'v) policy_based_cache \<Rightarrow> ('k, 'v) policy_based_cache" where
  "clear c =
     c\<lparr>m_storage_policy := storage_clear (m_storage_policy c),
       m_eviction_policy := eviction_clear (m_eviction_policy c)\<rparr>"

definition erase :: "'k \<Rightarrow> ('k, 'v) policy_based_cache \<Rightarrow> bool \<times> ('k, 'v) policy_based_cache" where
  "erase p_key c =
     (case storage_erase p_key (m_storage_policy c) of
        (was_erased, storage) \<Rightarrow>
          (was_erased,
           if was_erased
           then c\<lparr>m_storage_policy := storage,
                  m_eviction_policy := eviction_remove_key p_key (m_eviction_policy c)\<rparr>
           else c\<lparr>m_storage_policy := storage\<rparr>))"

text \<open>
  The convenience factories of \<^verbatim>\<open>cache.hpp\<close>.  Their eviction policies do not read the
  clock.
\<close>

definition make_lru_cache :: "nat \<Rightarrow> c_rand \<Rightarrow> ('k, 'v) policy_based_cache" where
  "make_lru_cache p_capacity g =
     new_policy_based_cache Lru_eviction Update_on_access_t Fixed_capacity p_capacity
       0 g"

definition make_fifo_cache :: "nat \<Rightarrow> c_rand \<Rightarrow> ('k, 'v) policy_based_cache" where
  "make_fifo_cache p_capacity g =
     new_policy_based_cache Fifo_eviction No_update_on_access_t Fixed_capacity p_capacity
       0 g"

definition make_lfu_cache :: "nat \<Rightarrow> c_rand \<Rightarrow> ('k, 'v) policy_based_cache" where
  "make_lfu_cache p_capacity g =
     new_policy_based_cache Lfu_eviction Update_on_access_t Fixed_capacity p_capacity
       0 g"

section \<open>Sequences of public operations\<close>

text \<open>
  A client drives the cache through its public member functions.  \<open>perform\<close> runs one
  call and reports what the caller observes: the value returned, or the exception.
\<close>

datatype ('k, 'v) operation =
  Put 'k 'v | Get 'k | Contains 'k | Erase 'k | Size | Capacity | Set_capacity nat | Clear

datatype 'v reply = Done | Value 'v | Flag bool | Count nat | Failed error

fun perform ::
  "('k, 'v) operation \<Rightarrow> ('k, 'v) policy_based_cache \<Rightarrow> 'v reply \<times> ('k, 'v) policy_based_cache" where
  "perform (Put k v) c =
     (case put k v c of Returns _ c' \<Rightarrow> (Done, c') | Throws e c' \<Rightarrow> (Failed e, c'))"
| "perform (Get k) c =
     (case get k c of Returns v c' \<Rightarrow> (Value v, c') | Throws e c' \<Rightarrow> (Failed e, c'))"
| "perform (Contains k) c = (Flag (contains k c), c)"
| "perform (Erase k) c = (case erase k c of (was_erased, c') \<Rightarrow> (Flag was_erased, c'))"
| "perform Size c = (Count (cache_size c), c)"
| "perform Capacity c = (Count (capacity c), c)"
| "perform (Set_capacity n) c =
     (case set_capacity n c of Returns _ c' \<Rightarrow> (Done, c') | Throws e c' \<Rightarrow> (Failed e, c'))"
| "perform Clear c = (Done, clear c)"

fun perform_all ::
  "('k, 'v) operation list \<Rightarrow> ('k, 'v) policy_based_cache
     \<Rightarrow> 'v reply list \<times> ('k, 'v) policy_based_cache" where
  "perform_all [] c = ([], c)"
| "perform_all (op # ops) c =
     (case perform op c of
        (r, c') \<Rightarrow> (case perform_all ops c' of (rs, c'') \<Rightarrow> (r # rs, c'')))"

definition replies :: "('k, 'v) operation list \<Rightarrow> ('k, 'v) policy_based_cache \<Rightarrow> 'v reply list" where
  "replies ops c = fst (perform_all ops c)"

definition state_after ::
  "('k, 'v) operation list \<Rightarrow> ('k, 'v) policy_based_cache \<Rightarrow> ('k, 'v) policy_based_cache" where
  "state_after ops c = snd (perform_all ops c)"

section \<open>The template-specialization caches\<close>

text \<open>
  \<^verbatim>\<open>cache<key_t, value_t, algorithm::lru>\<close> and \<^verbatim>\<open>cache<key_t, value_t, algorithm::lfu>\<close>
  do not use the policies.  Their \<^verbatim>\<open>put\<close> calls \<^verbatim>\<open>back()\<close>, \<^verbatim>\<open>front()\<close> and
  \<^verbatim>\<open>begin()->second\<close> without a check; on an empty container the C++ behaviour is
  undefined, and the model returns \<open>None\<close> there.
\<close>

record ('k, 'v) lru_cache =
  lru_m_list :: "'k list"
  lru_m_map :: "('k \<times> 'v) list"
  lru_m_capacity :: nat

definition new_lru_cache :: "nat \<Rightarrow> ('k, 'v) lru_cache" where
  "new_lru_cache p_capacity = \<lparr>lru_m_list = [], lru_m_map = [], lru_m_capacity = p_capacity\<rparr>"

definition lru_cache_put :: "'k \<Rightarrow> 'v \<Rightarrow> ('k, 'v) lru_cache \<Rightarrow> ('k, 'v) lru_cache option" where
  "lru_cache_put p_key p_value c =
     (let evicted =
            (if map_of (lru_m_map c) p_key \<noteq> None
             then Some (c\<lparr>lru_m_list := remove1 p_key (lru_m_list c)\<rparr>)
             else if length (lru_m_map c) \<ge> lru_m_capacity c
             then (case rev (lru_m_list c) of
                     [] \<Rightarrow> None
                   | back # _ \<Rightarrow>
                       Some (c\<lparr>lru_m_map := AList.delete back (lru_m_map c),
                               lru_m_list := butlast (lru_m_list c)\<rparr>))
             else Some c)
      in case evicted of
           None \<Rightarrow> None
         | Some c' \<Rightarrow>
             Some (c'\<lparr>lru_m_list := p_key # lru_m_list c',
                      lru_m_map := AList.update p_key p_value (lru_m_map c')\<rparr>))"

definition lru_cache_get :: "'k \<Rightarrow> ('k, 'v) lru_cache \<Rightarrow> ('v, ('k, 'v) lru_cache) outcome" where
  "lru_cache_get p_key c =
     (case map_of (lru_m_map c) p_key of
        Some p_value \<Rightarrow>
          Returns p_value (c\<lparr>lru_m_list := p_key # remove1 p_key (lru_m_list c)\<rparr>)
      | None \<Rightarrow> Throws (Out_of_range ''Key not found'') c)"

record ('k, 'v) lfu_cache =
  lfu_m_map :: "('k \<times> 'v \<times> nat) list"
  lfu_m_freq_map :: "(nat \<times> 'k list) list"
  lfu_m_capacity :: nat

definition new_lfu_cache :: "nat \<Rightarrow> ('k, 'v) lfu_cache" where
  "new_lfu_cache p_capacity = \<lparr>lfu_m_map = [], lfu_m_freq_map = [], lfu_m_capacity = p_capacity\<rparr>"

definition freq_map_remove :: "nat \<Rightarrow> 'k \<Rightarrow> (nat \<times> 'k list) list \<Rightarrow> (nat \<times> 'k list) list" where
  \<comment> \<open>\<^verbatim>\<open>m_freq_map[freq].remove(p_key); if (m_freq_map[freq].empty()) m_freq_map.erase(freq);\<close>\<close>
  "freq_map_remove freq p_key m =
     (let bucket = removeAll p_key (bucket_at m freq)
      in if bucket = [] then ordered_map_erase freq m else ordered_map_assign freq bucket m)"

definition lfu_cache_put :: "'k \<Rightarrow> 'v \<Rightarrow> ('k, 'v) lfu_cache \<Rightarrow> ('k, 'v) lfu_cache option" where
  "lfu_cache_put p_key p_value c =
     (if lfu_m_capacity c = 0 then Some c
      else case map_of (lfu_m_map c) p_key of
             Some (old_value, freq) \<Rightarrow>
               Some (c\<lparr>lfu_m_map :=
                         AList.update p_key (p_value, size_t_add freq 1) (lfu_m_map c),
                       lfu_m_freq_map :=
                         bucket_push_back (size_t_add freq 1) p_key
                           (freq_map_remove freq p_key (lfu_m_freq_map c))\<rparr>)
           | None \<Rightarrow>
               (let evicted =
                      (if length (lfu_m_map c) \<ge> lfu_m_capacity c
                       then (case lfu_m_freq_map c of
                               [] \<Rightarrow> None
                             | (least_freq, []) # rest \<Rightarrow> None
                             | (least_freq, front # least_freq_list) # rest \<Rightarrow>
                                 Some (c\<lparr>lfu_m_map := AList.delete front (lfu_m_map c),
                                         lfu_m_freq_map :=
                                           (if least_freq_list = [] then rest
                                            else (least_freq, least_freq_list) # rest)\<rparr>))
                       else Some c)
                in case evicted of
                     None \<Rightarrow> None
                   | Some c' \<Rightarrow>
                       Some (c'\<lparr>lfu_m_map := AList.update p_key (p_value, 1) (lfu_m_map c'),
                                lfu_m_freq_map := bucket_push_back 1 p_key (lfu_m_freq_map c')\<rparr>)))"

definition lfu_cache_size :: "('k, 'v) lfu_cache \<Rightarrow> nat" where
  "lfu_cache_size c = length (lfu_m_map c)"

definition lfu_cache_contains :: "'k \<Rightarrow> ('k, 'v) lfu_cache \<Rightarrow> bool" where
  "lfu_cache_contains p_key c = (map_of (lfu_m_map c) p_key \<noteq> None)"

section \<open>Auxiliary notions used in the statements\<close>

text \<open>
  A client reaches the policies through the public accessors \<^verbatim>\<open>eviction_policy()\<close>,
  \<^verbatim>\<open>storage_policy()\<close>, ... of the cache, which return mutable references.
  \<open>eviction_policy_on_insert\<close> is the call \<^verbatim>\<open>cache.eviction_policy().on_insert(k)\<close>.
\<close>

definition eviction_policy_on_insert ::
  "'k \<Rightarrow> ('k, 'v) policy_based_cache \<Rightarrow> ('k, 'v) policy_based_cache" where
  "eviction_policy_on_insert k c =
     c\<lparr>m_eviction_policy := eviction_on_insert k (m_eviction_policy c)\<rparr>"

text \<open>
  The one state of a capacity policy in which \<^verbatim>\<open>eviction_count\<close> divides by zero: a
  memory policy whose item size estimate is 0 reports the usage 0 for every size, which
  reaches the limit when the limit is 0 as well.  The cache constructs its memory policy
  with the item size \<^verbatim>\<open>sizeof(key_t) + sizeof(value_t)\<close>, and \<^verbatim>\<open>set_item_size_estimate\<close>
  stores at least 1; an item size of 0 comes from the second argument of the policy's
  own constructor.  Likewise \<^verbatim>\<open>on_access\<close> of a time decay policy divides by zero when
  its decay interval is 0.
\<close>

fun item_size_estimate_is_positive :: "capacity_policy \<Rightarrow> bool" where
  "item_size_estimate_is_positive (Memory p) = (0 < memory_item_size_estimate p)"
| "item_size_estimate_is_positive (Fixed p) = True"
| "item_size_estimate_is_positive (Dynamic p) = True"
| "item_size_estimate_is_positive (Soft p) = True"

fun eviction_count_divides_by_zero :: "capacity_policy \<Rightarrow> bool" where
  "eviction_count_divides_by_zero (Memory p) =
     (memory_item_size_estimate p = 0 \<and> memory_limit p = 0)"
| "eviction_count_divides_by_zero (Fixed p) = False"
| "eviction_count_divides_by_zero (Dynamic p) = False"
| "eviction_count_divides_by_zero (Soft p) = False"

fun on_access_divides_by_zero :: "'k access_policy \<Rightarrow> bool" where
  "on_access_divides_by_zero (Time_decay_access stamps m_current_time m_decay_interval) =
     (m_decay_interval = 0)"
| "on_access_divides_by_zero Update_on_access = False"
| "on_access_divides_by_zero No_update_on_access = False"
| "on_access_divides_by_zero (Threshold_access counts m_threshold) = False"

text \<open>
  The capacity contract in the words of the specification: \<open>k\<close> is the minimum number
  of removals such that, after removing \<open>k\<close> of \<open>s\<close> elements and inserting one, the
  size is at most the hard maximum \<open>m\<close>.
\<close>

definition size_after_eviction_and_insert :: "nat \<Rightarrow> nat \<Rightarrow> nat" where
  "size_after_eviction_and_insert s k = (s - k) + 1"

definition is_minimum_eviction_count :: "nat \<Rightarrow> nat \<Rightarrow> nat \<Rightarrow> bool" where
  "is_minimum_eviction_count m s k =
     (size_after_eviction_and_insert s k \<le> m
      \<and> (\<forall>j<k. \<not> size_after_eviction_and_insert s j \<le> m))"

text \<open>
  The default tolerance is 0.2.  For the targets used below, the source's conversion
  \<^verbatim>\<open>static_cast<std::size_t>(static_cast<double>(t) * (1.0 + 0.2))\<close> yields \<open>t + t div 5\<close>
  (120 for the target 100).
\<close>

definition default_hard_maximum :: "nat \<Rightarrow> nat" where
  "default_hard_maximum t = t + t div 5"

text \<open>
  The calls the cache makes on its eviction policy.  \<open>lfu_call\<close> and \<open>mfu_call\<close> run one
  call and return the state the policy is left in.
\<close>

datatype 'k policy_call =
  On_access 'k | On_insert 'k | On_update 'k | Select_victim | Remove_key 'k | Clear_policy

fun lfu_call :: "'k policy_call \<Rightarrow> 'k lfu_eviction_policy \<Rightarrow> 'k lfu_eviction_policy" where
  "lfu_call (On_access k) s = lfu_on_access k s"
| "lfu_call (On_insert k) s = lfu_on_insert k s"
| "lfu_call (On_update k) s = lfu_on_update k s"
| "lfu_call Select_victim s =
     (case lfu_select_victim s of Returns _ s' \<Rightarrow> s' | Throws _ s' \<Rightarrow> s')"
| "lfu_call (Remove_key k) s = lfu_remove_key k s"
| "lfu_call Clear_policy s = lfu_clear s"

fun mfu_call :: "'k policy_call \<Rightarrow> 'k mfu_eviction_policy \<Rightarrow> 'k mfu_eviction_policy" where
  "mfu_call (On_access k) s = mfu_on_access k s"
| "mfu_call (On_insert k) s = mfu_on_insert k s"
| "mfu_call (On_update k) s = mfu_on_update k s"
| "mfu_call Select_victim s =
     (case mfu_select_victim s of Returns _ s' \<Rightarrow> s' | Throws _ s' \<Rightarrow> s')"
| "mfu_call (Remove_key k) s = mfu_remove_key k s"
| "mfu_call Clear_policy s = mfu_clear s"

definition lfu_frequency :: "'k lfu_eviction_policy \<Rightarrow> 'k \<Rightarrow> nat option" where
  \<comment> \<open>the frequency counter of a key, \<open>None\<close> when the key is not tracked\<close>
  "lfu_frequency s k = map_of (lfu_key_frequency s) k"

definition mfu_frequency :: "'k mfu_eviction_policy \<Rightarrow> 'k \<Rightarrow> nat option" where
  "mfu_frequency s k = map_of (mfu_key_frequency s) k"

fun eviction_frequency :: "'k eviction_policy \<Rightarrow> 'k \<Rightarrow> nat option" where
  "eviction_frequency (LFU s) k = lfu_frequency s k"
| "eviction_frequency (MFU s) k = mfu_frequency s k"
| "eviction_frequency (LRU s) k = None"
| "eviction_frequency (MRU s) k = None"
| "eviction_frequency (FIFO s) k = None"
| "eviction_frequency (RANDOM s) k = None"

definition cache_frequency :: "('k, 'v) policy_based_cache \<Rightarrow> 'k \<Rightarrow> nat option" where
  \<comment> \<open>the frequency counter that the eviction policy of the cache keeps for a key\<close>
  "cache_frequency c k = eviction_frequency (m_eviction_policy c) k"

text \<open>
  The cache calls \<^verbatim>\<open>on_insert(k)\<close> in one place, the branch of \<^verbatim>\<open>put\<close> for a key that
  storage does not contain.  The states an LFU policy reaches under the calls of the
  cache, where \<^verbatim>\<open>on_insert\<close> is called for untracked keys only, together with a logical
  clock that counts the calls and, for each key, the time of the call that last
  inserted the key or promoted it to its present frequency.  Both are bookkeeping for
  the statement of the tie-break rule; the policy state is changed by the policy's own
  functions only.
\<close>

definition promoted :: "'k lfu_eviction_policy \<Rightarrow> 'k \<Rightarrow> nat \<Rightarrow> ('k \<Rightarrow> nat) \<Rightarrow> ('k \<Rightarrow> nat)" where
  "promoted s k t arrival = (if lfu_frequency s k = None then arrival else arrival(k := t))"

inductive lfu_reachable :: "'k lfu_eviction_policy \<Rightarrow> ('k \<Rightarrow> nat) \<Rightarrow> nat \<Rightarrow> bool" where
  fresh: "lfu_reachable new_lfu_eviction_policy (\<lambda>k. 0) 0"
| inserted: "lfu_reachable s arrival t \<Longrightarrow> lfu_frequency s k = None
     \<Longrightarrow> lfu_reachable (lfu_on_insert k s) (arrival(k := t)) (Suc t)"
| accessed: "lfu_reachable s arrival t
     \<Longrightarrow> lfu_reachable (lfu_on_access k s) (promoted s k t arrival) (Suc t)"
| updated: "lfu_reachable s arrival t
     \<Longrightarrow> lfu_reachable (lfu_on_update k s) (promoted s k t arrival) (Suc t)"
| removed: "lfu_reachable s arrival t \<Longrightarrow> lfu_reachable (lfu_remove_key k s) arrival (Suc t)"
| cleared: "lfu_reachable s arrival t \<Longrightarrow> lfu_reachable (lfu_clear s) arrival (Suc t)"

definition lfu_invariant :: "'k lfu_eviction_policy \<Rightarrow> ('k \<Rightarrow> nat) \<Rightarrow> nat \<Rightarrow> bool" where
  "lfu_invariant s arrival t =
     (distinct (map fst (lfu_key_frequency s))
      \<and> sorted_wrt (<) (map fst (lfu_frequency_buckets s))
      \<and> (\<forall>f bucket. map_of (lfu_frequency_buckets s) f = Some bucket \<longrightarrow>
            bucket \<noteq> [] \<and> sorted_wrt (\<lambda>x y. arrival x < arrival y) bucket
            \<and> (\<forall>k \<in> set bucket. lfu_frequency s k = Some f \<and> arrival k < t))
      \<and> (\<forall>k f. lfu_frequency s k = Some f \<longrightarrow> k \<in> set (bucket_at (lfu_frequency_buckets s) f))
      \<and> lfu_key_to_iterator s = fst ` set (lfu_key_frequency s))"

text \<open>
  Another part of the process calls \<^verbatim>\<open>std::rand()\<close> once: the generator advances, the
  cache is not touched.
\<close>

definition foreign_rand_call :: "('k, 'v) policy_based_cache \<Rightarrow> ('k, 'v) policy_based_cache" where
  "foreign_rand_call c = c\<lparr>process_rand := snd (std_rand (process_rand c))\<rparr>"

text \<open>
  A process whose generator has not been seeded yet (the C library then behaves as
  after \<^verbatim>\<open>std::srand(1)\<close>), with an algorithm chosen for the examples: the \<open>i\<close>-th value
  after the seed \<open>s\<close> is \<open>s + i\<close>.
\<close>

definition counting_generator :: c_rand where
  "counting_generator =
     \<lparr>rand_algorithm = (\<lambda>seed i. seed + i), rand_seed = 1, rand_calls = 0\<rparr>"

definition random_policy_set_cache ::
  "nat \<Rightarrow> nat \<Rightarrow> c_rand \<Rightarrow> ('k, 'v) policy_based_cache" where
  \<comment> \<open>\<^verbatim>\<open>policy_based_cache\<close> with the policies of \<^verbatim>\<open>random_policy_set\<close>: random eviction,
      hash storage, no update on access, fixed capacity\<close>
  "random_policy_set_cache p_capacity now g =
     new_policy_based_cache Random_eviction No_update_on_access_t Fixed_capacity p_capacity
       now g"

section \<open>Consistency of the policies with storage\<close>

text \<open>
  What each eviction policy maintains when it tracks the set \<open>K\<close> of keys: the
  agreement of its secondary index with its primary sequence, and key agreement with
  storage when \<open>K\<close> is the set of stored keys.
\<close>

definition lru_invariant :: "'k lru_eviction_policy \<Rightarrow> 'k set \<Rightarrow> bool" where
  "lru_invariant s K =
     (distinct (lru_access_list s) \<and> set (lru_access_list s) = K \<and> lru_key_to_iterator s = K)"

definition mru_invariant :: "'k mru_eviction_policy \<Rightarrow> 'k set \<Rightarrow> bool" where
  "mru_invariant s K =
     (distinct (mru_access_list s) \<and> set (mru_access_list s) = K \<and> mru_key_to_iterator s = K)"

definition live_keys :: "('k \<times> bool) list \<Rightarrow> 'k set" where
  \<comment> \<open>the keys whose flag in \<^verbatim>\<open>m_key_exists\<close> is set\<close>
  "live_keys ex = {k. map_of ex k = Some True}"

definition fifo_invariant :: "'k fifo_eviction_policy \<Rightarrow> 'k set \<Rightarrow> bool" where
  "fifo_invariant s K =
     (distinct (map fst (fifo_key_exists s))
      \<and> live_keys (fifo_key_exists s) = K
      \<and> K \<subseteq> set (fifo_insertion_queue s))"

definition random_invariant :: "'k random_eviction_policy \<Rightarrow> 'k set \<Rightarrow> bool" where
  "random_invariant s K =
     (distinct (random_keys s) \<and> set (random_keys s) = K
      \<and> (\<forall>k i. random_key_to_index s k = Some i
             \<longleftrightarrow> i < length (random_keys s) \<and> random_keys s ! i = k))"

definition mfu_as_lfu :: "'k mfu_eviction_policy \<Rightarrow> 'k lfu_eviction_policy" where
  \<comment> \<open>the MFU policy has the members of the LFU policy\<close>
  "mfu_as_lfu s =
     \<lparr>lfu_key_frequency = mfu_key_frequency s,
      lfu_frequency_buckets = mfu_frequency_buckets s,
      lfu_key_to_iterator = mfu_key_to_iterator s\<rparr>"

fun eviction_invariant :: "'k eviction_policy \<Rightarrow> 'k set \<Rightarrow> bool" where
  "eviction_invariant (LRU s) K = lru_invariant s K"
| "eviction_invariant (MRU s) K = mru_invariant s K"
| "eviction_invariant (FIFO s) K = fifo_invariant s K"
| "eviction_invariant (LFU s) K =
     ((\<exists>arrival t. lfu_invariant s arrival t) \<and> fst ` set (lfu_key_frequency s) = K)"
| "eviction_invariant (MFU s) K =
     ((\<exists>arrival t. lfu_invariant (mfu_as_lfu s) arrival t)
      \<and> fst ` set (mfu_key_frequency s) = K)"
| "eviction_invariant (RANDOM s) K = random_invariant s K"

definition stored_keys :: "('k, 'v) policy_based_cache \<Rightarrow> 'k set" where
  "stored_keys c = fst ` set (m_storage_policy c)"

definition cache_invariant :: "('k, 'v) policy_based_cache \<Rightarrow> bool" where
  "cache_invariant c =
     (distinct (map fst (m_storage_policy c))
      \<and> eviction_invariant (m_eviction_policy c) (stored_keys c))"

text \<open>The keys an eviction policy tracks, as its \<^verbatim>\<open>size()\<close> counts them.\<close>

fun tracked_keys :: "'k eviction_policy \<Rightarrow> 'k set" where
  "tracked_keys (LRU s) = set (lru_access_list s)"
| "tracked_keys (MRU s) = set (mru_access_list s)"
| "tracked_keys (FIFO s) = live_keys (fifo_key_exists s)"
| "tracked_keys (LFU s) = fst ` set (lfu_key_frequency s)"
| "tracked_keys (MFU s) = fst ` set (mfu_key_frequency s)"
| "tracked_keys (RANDOM s) = set (random_keys s)"

definition fixed_size_bound :: "('k, 'v) policy_based_cache \<Rightarrow> bool" where
  \<comment> \<open>the capacity policy is the fixed one, its capacity is below the largest
      \<^verbatim>\<open>std::size_t\<close>, and the cache holds at most \<open>max capacity 1\<close> entries\<close>
  "fixed_size_bound c =
     (case m_capacity_policy c of
        Fixed p \<Rightarrow>
          cache_size c \<le> max (fixed_m_capacity p) 1 \<and> fixed_m_capacity p < 2 ^ 64 - 1
      | _ \<Rightarrow> False)"

definition capacities_below_maximum :: "('k, 'v) operation list \<Rightarrow> bool" where
  \<comment> \<open>no call of \<^verbatim>\<open>set_capacity\<close> passes the largest \<^verbatim>\<open>std::size_t\<close>\<close>
  "capacities_below_maximum ops = (\<forall>n. Set_capacity n \<in> set ops \<longrightarrow> n < 2 ^ 64 - 1)"

section \<open>Unfolding the model\<close>

lemma size_t_add_small: "a + b < 2 ^ 64 \<Longrightarrow> size_t_add a b = a + b"
  by (simp add: size_t_add_def)

lemma size_t_add_1_1: "size_t_add (Suc 0) (Suc 0) = Suc (Suc 0)"
  by (simp add: size_t_add_def)

lemma size_t_add_0_1: "size_t_add 0 (Suc 0) = Suc 0"
  by (simp add: size_t_add_def)

lemma erase_last_node_distinct: "distinct b \<Longrightarrow> erase_last_node k b = remove1 k b"
  by (simp add: erase_last_node_def distinct_remove1_removeAll removeAll_filter_not_eq
        rev_filter)

lemma in_set_erase_last_node: "j \<noteq> k \<Longrightarrow> j \<in> set (erase_last_node k b) \<longleftrightarrow> j \<in> set b"
  by (simp add: erase_last_node_def)

lemma set_erase_last_node: "set (erase_last_node k b) \<subseteq> set b"
  using set_remove1_subset [of k "rev b"] by (simp add: erase_last_node_def)

lemmas lru_defs =
  new_lru_eviction_policy_def lru_on_access_def lru_on_insert_def lru_on_update_def
  lru_select_victim_def lru_remove_key_def lru_empty_def lru_size_def lru_clear_def

lemmas mru_defs =
  new_mru_eviction_policy_def mru_on_access_def mru_on_insert_def mru_on_update_def
  mru_select_victim_def mru_remove_key_def mru_empty_def mru_size_def mru_clear_def

lemmas fifo_defs =
  new_fifo_eviction_policy_def fifo_on_access_def fifo_on_insert_def fifo_on_update_def
  fifo_select_victim_def fifo_remove_key_def fifo_empty_def fifo_size_def fifo_clear_def

lemmas bucket_defs =
  bucket_at_def bucket_push_back_def erase_last_node_def bucket_erase_key_def
  ordered_map_erase_def

lemmas lfu_defs =
  new_lfu_eviction_policy_def lfu_increment_frequency_def lfu_on_access_def lfu_on_insert_def
  lfu_on_update_def lfu_select_victim_def lfu_remove_key_def lfu_empty_def lfu_size_def
  lfu_clear_def

lemmas mfu_defs =
  new_mfu_eviction_policy_def mfu_increment_frequency_def mfu_on_access_def mfu_on_insert_def
  mfu_on_update_def mfu_select_victim_def mfu_remove_key_def mfu_empty_def mfu_size_def
  mfu_clear_def

lemmas random_defs =
  new_random_eviction_policy_def initialize_random_def std_rand_def std_srand_def
  random_on_access_def random_on_insert_def random_on_update_def random_select_victim_def
  random_remove_key_def random_empty_def random_size_def random_clear_def

lemmas storage_defs =
  storage_insert_def storage_find_def storage_erase_def storage_contains_def
  storage_size_def storage_empty_def storage_clear_def

lemmas fixed_defs =
  fixed_capacity_def fixed_set_capacity_def fixed_needs_eviction_def fixed_eviction_count_def
  size_t_add_0_1

lemmas cache_defs =
  new_policy_based_cache_def evict_one_def evict_if_necessary_for_insertion_def
  evict_if_necessary_for_capacity_change_def put_def get_def contains_def cache_size_def
  cache_empty_def capacity_def set_capacity_def clear_def erase_def lift_outcome_def
  policy_error_def

lemmas run_defs = replies_def state_after_def

section \<open>End-to-end scenario\<close>

text \<open>
  Claim C6.  On an LRU cache of capacity 2 (the policy-composed cache that
  \<^verbatim>\<open>make_lru_cache\<close> builds), the calls \<^verbatim>\<open>put(1,"a"); put(2,"b"); get(1); put(3,"c")\<close>
  evict exactly key 2: the following \<^verbatim>\<open>get(2)\<close> throws \<^verbatim>\<open>std::out_of_range\<close>
  (not found), \<^verbatim>\<open>get(1)\<close> returns \<^verbatim>\<open>"a"\<close> and \<^verbatim>\<open>get(3)\<close> returns \<^verbatim>\<open>"c"\<close>; keys 1
  and 3 are the two entries that remain.
\<close>

theorem lru_scenario_evicts_key_2:
  "replies
     [Put (1::nat) ''a'', Put 2 ''b'', Get 1, Put 3 ''c'',
      Get 2, Get 1, Get 3, Contains 1, Contains 2, Contains 3, Size]
     (make_lru_cache 2 g)
   = [Done, Done, Value ''a'', Done,
      Failed (Out_of_range ''Key not found in cache''), Value ''a'', Value ''c'',
      Flag True, Flag False, Flag True, Count 2]"
  by (simp add: make_lru_cache_def run_defs cache_defs lru_defs storage_defs fixed_defs)

text \<open>
  The legacy class \<^verbatim>\<open>cache<key_t, value_t, algorithm::lru>\<close> goes through the same
  scenario with the same outcome; its \<^verbatim>\<open>get\<close> of the evicted key throws
  \<^verbatim>\<open>std::out_of_range("Key not found")\<close>.
\<close>

lemma legacy_lru_scenario:
  fixes c0 :: "(nat, string) lru_cache"
  assumes "c0 = new_lru_cache 2"
  shows "\<exists>c1 c2 c3 c4.
     lru_cache_put 1 ''a'' c0 = Some c1 \<and>
     lru_cache_put 2 ''b'' c1 = Some c2 \<and>
     lru_cache_get 1 c2 = Returns ''a'' c3 \<and>
     lru_cache_put 3 ''c'' c3 = Some c4 \<and>
     lru_cache_get 2 c4 = Throws (Out_of_range ''Key not found'') c4 \<and>
     map_of (lru_m_map c4) 1 = Some ''a'' \<and>
     map_of (lru_m_map c4) 3 = Some ''c'' \<and>
     length (lru_m_map c4) = 2"
  unfolding assms
  by (simp add: new_lru_cache_def lru_cache_put_def lru_cache_get_def)

section \<open>FIFO: \<^verbatim>\<open>empty()\<close> against \<^verbatim>\<open>size()\<close>\<close>

text \<open>
  Claim C10 says that \<^verbatim>\<open>fifo_eviction_policy::empty()\<close> is true exactly when
  \<^verbatim>\<open>size()\<close> is 0, in particular after \<^verbatim>\<open>on_insert(k); remove_key(k)\<close>.  The code
  does otherwise: \<^verbatim>\<open>remove_key\<close> only clears the key's flag in \<^verbatim>\<open>m_key_exists\<close>,
  \<^verbatim>\<open>size()\<close> counts the set flags and \<^verbatim>\<open>empty()\<close> asks whether the map has entries.
  After \<^verbatim>\<open>on_insert(k); remove_key(k)\<close> on a fresh policy, \<^verbatim>\<open>size()\<close> is 0 and
  \<^verbatim>\<open>empty()\<close> is false.
\<close>

theorem fifo_empty_disagrees_with_size:
  "fifo_size (fifo_remove_key k (fifo_on_insert k new_fifo_eviction_policy)) = 0
   \<and> \<not> fifo_empty (fifo_remove_key k (fifo_on_insert k new_fifo_eviction_policy))"
  by (simp add: fifo_defs)

section \<open>A victim that storage does not contain\<close>

text \<open>
  Claim C1 says that \<^verbatim>\<open>put\<close> fails with a policy-inconsistency error, and inserts
  nothing, when the eviction policy selects a key that storage does not contain.  The
  code throws \<^verbatim>\<open>policy_error\<close> inside the \<^verbatim>\<open>try\<close> block of \<^verbatim>\<open>evict_entries\<close>, whose
  own handler \<^verbatim>\<open>catch (const std::runtime_error&)\<close> catches it (\<^verbatim>\<open>policy_error\<close>
  derives from \<^verbatim>\<open>std::runtime_error\<close>) and leaves the loop; \<^verbatim>\<open>put\<close> then inserts
  the new entry and returns normally.

  The input: an LRU cache of capacity 1 on which the client has called
  \<^verbatim>\<open>eviction_policy().on_insert(99)\<close> and then \<^verbatim>\<open>put(1,"a")\<close>.  The next call
  \<^verbatim>\<open>put(2,"b")\<close> must evict; the policy selects 99, which storage does not hold.  The
  body of the loop throws the policy error, yet \<^verbatim>\<open>put(2,"b")\<close> returns, key 2 is in
  the cache and the cache holds 2 entries at capacity 1.
\<close>

theorem put_swallows_policy_inconsistency:
  "evict_one (state_after [Put (1::nat) ''a''] (eviction_policy_on_insert 99 (make_lru_cache 1 g)))
     = Throws (Policy_error ''Policy Error: Eviction policy selected non-existent key'')
         (state_after [Put 1 ''a''] (eviction_policy_on_insert 99 (make_lru_cache 1 g)))
   \<and> replies [Put (1::nat) ''a'', Put 2 ''b'', Contains 2, Size, Capacity]
        (eviction_policy_on_insert 99 (make_lru_cache 1 g))
     = [Done, Done, Flag True, Count 2, Count 1]"
  by (simp add: make_lru_cache_def eviction_policy_on_insert_def run_defs cache_defs lru_defs
        storage_defs fixed_defs)

section \<open>Capacity 0\<close>

lemma put_at_capacity_0:
  "perform_all [Put k v, Size, Capacity, Contains k]
     (new_policy_based_cache ev ac Fixed_capacity 0 now g :: ('k, 'v) policy_based_cache)
   = ([Done, Count 1, Count 0, Flag True],
      state_after [Put k v] (new_policy_based_cache ev ac Fixed_capacity 0 now g))"
  by (cases ev; cases ac)
     (simp_all add: run_defs cache_defs storage_defs fixed_defs lru_defs mru_defs fifo_defs
        lfu_defs mfu_defs random_defs)

text \<open>
  Claim C3 says that on every cache of capacity 0 \<^verbatim>\<open>put(k, v)\<close> succeeds and leaves
  the cache empty.  The template-specialization LFU cache does so, by its guard
  \<^verbatim>\<open>if (m_capacity == 0) return;\<close>.  The policy-composed cache has no such guard:
  with the fixed capacity policy at capacity 0, whatever the eviction and access
  policies, \<^verbatim>\<open>evict_entries\<close> finds storage empty and evicts nothing, and \<^verbatim>\<open>put\<close>
  inserts the entry: afterwards \<^verbatim>\<open>size()\<close> is 1 and \<^verbatim>\<open>contains(k)\<close> is true.  (In
  the template-specialization LRU cache the same call reads \<^verbatim>\<open>m_list.back()\<close> of an
  empty list.)
\<close>

theorem put_at_capacity_0_keeps_entry:
  "replies [Put k v, Size, Contains k]
     (new_policy_based_cache ev ac Fixed_capacity 0 now g :: ('k, 'v) policy_based_cache)
     = [Done, Count 1, Flag True]
   \<and> lfu_cache_put k v (new_lfu_cache 0 :: ('k, 'v) lfu_cache) = Some (new_lfu_cache 0)
   \<and> lfu_cache_size (new_lfu_cache 0 :: ('k, 'v) lfu_cache) = 0
   \<and> lru_cache_put k v (new_lru_cache 0 :: ('k, 'v) lru_cache) = None"
proof -
  have "replies [Put k v, Size, Contains k]
     (new_policy_based_cache ev ac Fixed_capacity 0 now g :: ('k, 'v) policy_based_cache)
     = [Done, Count 1, Flag True]"
    using put_at_capacity_0 [of k v ev ac now g]
    by (simp add: replies_def split: prod.splits)
  moreover have "lfu_cache_put k v (new_lfu_cache 0 :: ('k, 'v) lfu_cache) = Some (new_lfu_cache 0)"
    by (simp add: lfu_cache_put_def new_lfu_cache_def)
  moreover have "lfu_cache_size (new_lfu_cache 0 :: ('k, 'v) lfu_cache) = 0"
    by (simp add: lfu_cache_size_def new_lfu_cache_def)
  moreover have "lru_cache_put k v (new_lru_cache 0 :: ('k, 'v) lru_cache) = None"
    by (simp add: lru_cache_put_def new_lru_cache_def)
  ultimately show ?thesis by simp
qed

text \<open>
  Claim C2 says that \<^verbatim>\<open>size() <= capacity()\<close> holds after every public operation of
  a policy-composed cache with the fixed capacity policy, for every capacity \<open>n \<ge> 0\<close>.
  At \<open>n = 0\<close> the code breaks it with the first \<^verbatim>\<open>put\<close>: the cache then holds one
  entry while \<^verbatim>\<open>capacity()\<close> is 0.  The same happens after \<^verbatim>\<open>set_capacity(0)\<close> on a
  cache that was built with a positive capacity.
\<close>

theorem size_exceeds_capacity_0:
  "cache_size (state_after [Put k v]
      (new_policy_based_cache ev ac Fixed_capacity 0 now g :: ('k, 'v) policy_based_cache)) = 1
   \<and> capacity (state_after [Put k v]
      (new_policy_based_cache ev ac Fixed_capacity 0 now g :: ('k, 'v) policy_based_cache)) = 0
   \<and> cache_size (state_after [Set_capacity 0, Put k v]
      (make_lru_cache 5 g :: ('k, 'v) policy_based_cache)) = 1
   \<and> capacity (state_after [Set_capacity 0, Put k v]
      (make_lru_cache 5 g :: ('k, 'v) policy_based_cache)) = 0"
proof -
  have "perform_all [Size, Capacity]
          (state_after [Put k v]
            (new_policy_based_cache ev ac Fixed_capacity 0 now g :: ('k, 'v) policy_based_cache))
        = ([Count 1, Count 0],
           state_after [Put k v] (new_policy_based_cache ev ac Fixed_capacity 0 now g))"
    using put_at_capacity_0 [of k v ev ac now g]
    by (simp add: state_after_def split: prod.splits)
  then have "cache_size (state_after [Put k v]
      (new_policy_based_cache ev ac Fixed_capacity 0 now g :: ('k, 'v) policy_based_cache)) = 1"
    and "capacity (state_after [Put k v]
      (new_policy_based_cache ev ac Fixed_capacity 0 now g :: ('k, 'v) policy_based_cache)) = 0"
    by simp_all
  moreover have "cache_size (state_after [Set_capacity 0, Put k v]
      (make_lru_cache 5 g :: ('k, 'v) policy_based_cache)) = 1"
    by (simp add: make_lru_cache_def run_defs cache_defs storage_defs fixed_defs lru_defs)
  moreover have "capacity (state_after [Set_capacity 0, Put k v]
      (make_lru_cache 5 g :: ('k, 'v) policy_based_cache)) = 0"
    by (simp add: make_lru_cache_def run_defs cache_defs storage_defs fixed_defs lru_defs)
  ultimately show ?thesis by simp
qed

section \<open>Soft capacity: the eviction count\<close>

lemmas soft_defs =
  new_soft_capacity_policy_def soft_capacity_def soft_set_capacity_def soft_needs_eviction_def
  soft_eviction_count_def size_t_sub_def size_t_add_def

text \<open>
  Claim C4 says that \<^verbatim>\<open>soft_capacity_policy::eviction_count(s)\<close> is the minimum
  \<open>k\<close> such that the size after removing \<open>k\<close> elements and inserting one is at most the
  hard maximum \<open>m\<close>, and that it is 0 whenever \<open>s + 1 \<le> m\<close>.  With target 100 and the
  default tolerance (\<open>m = 120\<close>) the code returns 1 at size 110, where the minimum is 0
  (\<open>110 + 1 \<le> 120\<close>), and 21 at size 120, where the minimum is 1.
\<close>

theorem soft_eviction_count_not_minimum:
  "soft_max_capacity (new_soft_capacity_policy default_hard_maximum 100) = 120
   \<and> soft_eviction_count 110 (new_soft_capacity_policy default_hard_maximum 100) = 1
   \<and> 110 + 1 \<le> soft_max_capacity (new_soft_capacity_policy default_hard_maximum 100)
   \<and> is_minimum_eviction_count 120 110 0
   \<and> \<not> is_minimum_eviction_count 120 110
         (soft_eviction_count 110 (new_soft_capacity_policy default_hard_maximum 100))
   \<and> soft_eviction_count 120 (new_soft_capacity_policy default_hard_maximum 100) = 21
   \<and> is_minimum_eviction_count 120 120 1
   \<and> \<not> is_minimum_eviction_count 120 120
         (soft_eviction_count 120 (new_soft_capacity_policy default_hard_maximum 100))"
proof -
  have m: "soft_max_capacity (new_soft_capacity_policy default_hard_maximum 100) = 120"
    by (simp add: soft_defs default_hard_maximum_def)
  have c110: "soft_eviction_count 110 (new_soft_capacity_policy default_hard_maximum 100) = 1"
    by (simp add: soft_defs default_hard_maximum_def)
  have c120: "soft_eviction_count 120 (new_soft_capacity_policy default_hard_maximum 100) = 21"
    by (simp add: soft_defs default_hard_maximum_def)
  have min110: "is_minimum_eviction_count 120 110 0"
    by (simp add: is_minimum_eviction_count_def size_after_eviction_and_insert_def)
  have min120: "is_minimum_eviction_count 120 120 1"
    by (simp add: is_minimum_eviction_count_def size_after_eviction_and_insert_def)
  have not110: "\<not> is_minimum_eviction_count 120 110 1"
    by (simp add: is_minimum_eviction_count_def size_after_eviction_and_insert_def)
  have not120: "\<not> is_minimum_eviction_count 120 120 21"
  proof
    assume "is_minimum_eviction_count 120 120 21"
    then have "\<forall>j<21. \<not> size_after_eviction_and_insert 120 j \<le> 120"
      by (simp add: is_minimum_eviction_count_def)
    then have "(1::nat) < 21 \<longrightarrow> \<not> size_after_eviction_and_insert 120 1 \<le> 120"
      by (rule allE)
    then show False
      by (simp add: size_after_eviction_and_insert_def)
  qed
  from m c110 c120 min110 min120 not110 not120 show ?thesis by simp
qed

text \<open>
  Claim C4, amended.  For a soft capacity policy with target \<open>t \<ge> 1\<close> and hard maximum
  \<open>m \<ge> t\<close>, and every size \<open>s\<close> (a \<^verbatim>\<open>std::size_t\<close>, so \<open>s < 2 ^ 64\<close>):
  \<^verbatim>\<open>eviction_count(s)\<close> is \<open>s - t + 1\<close> when \<open>s \<ge> m\<close>, which is enough to bring the
  size back to the target after the insert (removing that many elements and inserting
  one leaves exactly \<open>t \<le> m\<close> elements; it is more than the minimum when \<open>t < m\<close>);
  it is 1 when \<open>t < s < m\<close> (gradual drain); and it is 0 when \<open>s \<le> t\<close> and \<open>s < m\<close>.
\<close>

theorem soft_eviction_count_drains_to_target:
  assumes "1 \<le> soft_target_capacity p"
    and "soft_target_capacity p \<le> soft_max_capacity p"
    and "s < 2 ^ 64"
  shows "soft_eviction_count s p =
           (if soft_max_capacity p \<le> s then s - soft_target_capacity p + 1
            else if soft_target_capacity p < s then 1 else 0)
         \<and> (soft_needs_eviction s p \<longrightarrow>
              soft_eviction_count s p \<le> s
              \<and> size_after_eviction_and_insert s (soft_eviction_count s p) = soft_target_capacity p
              \<and> size_after_eviction_and_insert s (soft_eviction_count s p) \<le> soft_max_capacity p)
         \<and> (s \<le> soft_target_capacity p \<and> s < soft_max_capacity p \<longrightarrow>
              soft_eviction_count s p = 0)"
proof -
  have count: "soft_eviction_count s p =
           (if soft_max_capacity p \<le> s then s - soft_target_capacity p + 1
            else if soft_target_capacity p < s then 1 else 0)"
  proof (cases "soft_max_capacity p \<le> s")
    case True
    with assms have "soft_target_capacity p \<le> s" and "s - soft_target_capacity p + 1 < 2 ^ 64"
      by simp_all
    with True show ?thesis
      by (simp add: soft_eviction_count_def size_t_sub_def size_t_add_def)
  next
    case False
    then show ?thesis by (simp add: soft_eviction_count_def)
  qed
  moreover have "soft_eviction_count s p \<le> s
       \<and> size_after_eviction_and_insert s (soft_eviction_count s p) = soft_target_capacity p
       \<and> size_after_eviction_and_insert s (soft_eviction_count s p) \<le> soft_max_capacity p"
    if "soft_needs_eviction s p"
  proof -
    from that have "soft_max_capacity p \<le> s" by (simp add: soft_needs_eviction_def)
    with assms count show ?thesis
      by (simp add: size_after_eviction_and_insert_def)
  qed
  moreover have "soft_eviction_count s p = 0"
    if "s \<le> soft_target_capacity p \<and> s < soft_max_capacity p"
    using that count by simp
  ultimately show ?thesis by blast
qed

theorem soft_eviction_count_drains_to_target_witness:
  "1 \<le> soft_target_capacity (new_soft_capacity_policy default_hard_maximum 100)
   \<and> soft_target_capacity (new_soft_capacity_policy default_hard_maximum 100)
       \<le> soft_max_capacity (new_soft_capacity_policy default_hard_maximum 100)
   \<and> (125::nat) < 2 ^ 64
   \<and> soft_needs_eviction 125 (new_soft_capacity_policy default_hard_maximum 100)
   \<and> soft_eviction_count 125 (new_soft_capacity_policy default_hard_maximum 100) = 26
   \<and> size_after_eviction_and_insert 125
        (soft_eviction_count 125 (new_soft_capacity_policy default_hard_maximum 100)) = 100"
proof -
  have h1: "1 \<le> soft_target_capacity (new_soft_capacity_policy default_hard_maximum 100)"
    by (simp add: new_soft_capacity_policy_def)
  have h2: "soft_target_capacity (new_soft_capacity_policy default_hard_maximum 100)
       \<le> soft_max_capacity (new_soft_capacity_policy default_hard_maximum 100)"
    by (simp add: new_soft_capacity_policy_def default_hard_maximum_def)
  have h3: "(125::nat) < 2 ^ 64" by simp
  have h4: "soft_needs_eviction 125 (new_soft_capacity_policy default_hard_maximum 100)"
    by (simp add: soft_needs_eviction_def new_soft_capacity_policy_def default_hard_maximum_def)
  note th = soft_eviction_count_drains_to_target [OF h1 h2 h3]
  from th have "soft_eviction_count 125 (new_soft_capacity_policy default_hard_maximum 100) =
           (if soft_max_capacity (new_soft_capacity_policy default_hard_maximum 100) \<le> 125
            then 125 - soft_target_capacity (new_soft_capacity_policy default_hard_maximum 100) + 1
            else if soft_target_capacity (new_soft_capacity_policy default_hard_maximum 100) < 125
            then 1 else 0)"
    by (rule conjunct1)
  then have e1: "soft_eviction_count 125 (new_soft_capacity_policy default_hard_maximum 100) = 26"
    by (simp add: new_soft_capacity_policy_def default_hard_maximum_def)
  from th h4 have "size_after_eviction_and_insert 125
            (soft_eviction_count 125 (new_soft_capacity_policy default_hard_maximum 100))
          = soft_target_capacity (new_soft_capacity_policy default_hard_maximum 100)"
    by blast
  then have e2: "size_after_eviction_and_insert 125
            (soft_eviction_count 125 (new_soft_capacity_policy default_hard_maximum 100)) = 100"
    by (simp add: new_soft_capacity_policy_def)
  from h1 h2 h3 h4 e1 e2 show ?thesis by blast
qed

section \<open>When \<^verbatim>\<open>put\<close> returns\<close>

lemma eviction_select_victim_throws_runtime_error:
  "eviction_select_victim e g = Throws err s \<Longrightarrow> is_runtime_error err"
  by (cases e)
     (auto simp: lift_outcome_def lru_select_victim_def mru_select_victim_def
        fifo_select_victim_def lfu_select_victim_def mfu_select_victim_def
        random_select_victim_def Let_def
        split: list.splits option.splits prod.splits if_splits)

lemma evict_one_throws_runtime_error:
  "evict_one c = Throws err c' \<Longrightarrow> is_runtime_error err"
  by (auto simp: evict_one_def policy_error_def
        dest: eviction_select_victim_throws_runtime_error
        split: outcome.splits prod.splits if_splits)

lemma evict_entries_returns: "\<exists>c'. evict_entries n c = Returns () c'"
proof (induction n arbitrary: c)
  case 0
  show ?case by simp
next
  case (Suc n)
  show ?case
  proof (cases "evict_one c")
    case (Returns u c1)
    with Suc.IH [of c1] show ?thesis by auto
  next
    case (Throws err c1)
    then have "is_runtime_error err" by (rule evict_one_throws_runtime_error)
    with Throws show ?thesis by simp
  qed
qed

lemma memory_needs_eviction_fields:
  "memory_needs_eviction n p = (b, p') \<Longrightarrow>
     b = (size_t_mul n (memory_item_size_estimate p) \<ge> memory_limit p)
     \<and> memory_item_size_estimate p' = memory_item_size_estimate p
     \<and> memory_limit p' = memory_limit p"
  by (auto simp: memory_needs_eviction_def Let_def)

lemma capacity_eviction_count_defined:
  assumes "\<not> eviction_count_divides_by_zero cp"
    and "capacity_needs_eviction n cp = (True, cp')"
  shows "\<exists>eviction_count. capacity_eviction_count n cp' = Some eviction_count"
proof (cases cp)
  case (Memory p)
  with assms(2) obtain p' where p': "cp' = Memory p'" "memory_needs_eviction n p = (True, p')"
    by (auto split: prod.splits)
  note f = memory_needs_eviction_fields [OF p'(2)]
  have "memory_item_size_estimate p \<noteq> 0"
  proof
    assume z: "memory_item_size_estimate p = 0"
    with f have "memory_limit p = 0" by (simp add: size_t_mul_def)
    with z assms(1) Memory show False by simp
  qed
  with f p'(1) show ?thesis
    by (simp add: memory_eviction_count_def Let_def)
qed (use assms(2) in auto)

lemma capacity_eviction_count_divides_by_zero:
  assumes "eviction_count_divides_by_zero cp"
  shows "\<exists>cp'. capacity_needs_eviction n cp = (True, cp')
           \<and> capacity_eviction_count n cp' = None"
proof (cases cp)
  case (Memory p)
  with assms show ?thesis
    by (simp add: memory_needs_eviction_def memory_eviction_count_def Let_def size_t_mul_def)
qed (use assms in auto)

lemma evict_if_necessary_for_insertion_returns:
  assumes "\<not> eviction_count_divides_by_zero (m_capacity_policy c)"
  shows "\<exists>c'. evict_if_necessary_for_insertion c = Returns () c'"
proof -
  obtain needed cp where n:
    "capacity_needs_eviction (storage_size (m_storage_policy c)) (m_capacity_policy c)
       = (needed, cp)"
    by (cases "capacity_needs_eviction (storage_size (m_storage_policy c)) (m_capacity_policy c)")
  show ?thesis
  proof (cases needed)
    case True
    with n have "capacity_needs_eviction (storage_size (m_storage_policy c)) (m_capacity_policy c)
       = (True, cp)"
      by simp
    from capacity_eviction_count_defined [OF assms this]
    obtain eviction_count where
      "capacity_eviction_count (storage_size (m_storage_policy c)) cp = Some eviction_count"
      by blast
    with n True evict_entries_returns [of eviction_count "c\<lparr>m_capacity_policy := cp\<rparr>"]
    show ?thesis
      by (auto simp: evict_if_necessary_for_insertion_def Let_def)
  next
    case False
    with n show ?thesis
      by (simp add: evict_if_necessary_for_insertion_def Let_def)
  qed
qed

lemma evict_if_necessary_for_insertion_divides_by_zero:
  assumes "eviction_count_divides_by_zero (m_capacity_policy c)"
  shows "\<exists>c'. evict_if_necessary_for_insertion c = Throws Division_by_zero c'"
  using capacity_eviction_count_divides_by_zero
          [OF assms, of "storage_size (m_storage_policy c)"]
  by (auto simp: evict_if_necessary_for_insertion_def Let_def)

lemma evict_one_access_policy:
  "m_access_policy (final_state (evict_one c)) = m_access_policy c"
  by (simp add: evict_one_def split: outcome.splits prod.splits)

lemma evict_entries_access_policy:
  "m_access_policy (final_state (evict_entries n c)) = m_access_policy c"
proof (induction n arbitrary: c)
  case 0
  show ?case by simp
next
  case (Suc n)
  show ?case
  proof (cases "evict_one c")
    case (Returns u c1)
    with evict_one_access_policy [of c] Suc.IH [of c1] show ?thesis by simp
  next
    case (Throws e c1)
    with evict_one_access_policy [of c] show ?thesis by simp
  qed
qed

lemma evict_if_necessary_for_insertion_access_policy:
  "m_access_policy (final_state (evict_if_necessary_for_insertion c)) = m_access_policy c"
  by (simp add: evict_if_necessary_for_insertion_def Let_def evict_entries_access_policy
        split: prod.splits option.splits)

lemma put_access_policy:
  "m_access_policy (final_state (put k v c)) = m_access_policy c"
  using evict_if_necessary_for_insertion_access_policy [of c]
  by (auto simp: put_def split: outcome.splits)

lemma put_new_key:
  assumes "map_of (m_storage_policy c) k = None"
    and "\<not> eviction_count_divides_by_zero (m_capacity_policy c)"
  shows "\<exists>c1. evict_if_necessary_for_insertion c = Returns () c1
           \<and> put k v c = Returns ()
               (c1\<lparr>m_storage_policy := AList.update k v (m_storage_policy c1),
                   m_eviction_policy := eviction_on_insert k (m_eviction_policy c1)\<rparr>)"
proof -
  obtain c1 where "evict_if_necessary_for_insertion c = Returns () c1"
    using evict_if_necessary_for_insertion_returns [OF assms(2)] by auto
  with assms(1) show ?thesis
    by (simp add: put_def storage_contains_def storage_insert_def)
qed

lemma put_present_key:
  assumes "map_of (m_storage_policy c) k \<noteq> None"
  shows "put k v c = Returns ()
           (c\<lparr>m_storage_policy := AList.update k v (m_storage_policy c),
              m_eviction_policy := eviction_on_update k (m_eviction_policy c)\<rparr>)"
  using assms by (simp add: put_def storage_contains_def storage_insert_def)

lemma put_divides_by_zero:
  assumes "map_of (m_storage_policy c) k = None"
    and "eviction_count_divides_by_zero (m_capacity_policy c)"
  shows "\<exists>c'. put k v c = Throws Division_by_zero c'"
  using evict_if_necessary_for_insertion_divides_by_zero [OF assms(2)] assms(1)
  by (auto simp: put_def storage_contains_def)

lemma put_returns:
  assumes "\<not> eviction_count_divides_by_zero (m_capacity_policy c)"
  shows "\<exists>c'. put k v c = Returns () c' \<and> map_of (m_storage_policy c') k = Some v"
proof (cases "map_of (m_storage_policy c) k = None")
  case True
  from put_new_key [OF True assms, of v] show ?thesis
    by (auto simp: update_conv')
next
  case False
  from put_present_key [OF False, of v] show ?thesis
    by (auto simp: update_conv')
qed

lemma access_on_access_returns:
  assumes "\<not> on_access_divides_by_zero ap"
  shows "\<exists>should_update ap'. access_on_access k ap = Returns should_update ap'"
  using assms by (cases ap) (auto simp: Let_def)

lemma access_on_access_divides_by_zero:
  assumes "on_access_divides_by_zero ap"
  shows "\<exists>ap'. access_on_access k ap = Throws Division_by_zero ap'"
  using assms by (cases ap) (simp_all add: Let_def)

lemma get_present_key:
  assumes "map_of (m_storage_policy c) k = Some v"
    and "\<not> on_access_divides_by_zero (m_access_policy c)"
  shows "\<exists>c'. get k c = Returns v c'"
  using assms(1) access_on_access_returns [OF assms(2), of k]
  by (auto simp: get_def storage_find_def)

lemma get_divides_by_zero:
  assumes "map_of (m_storage_policy c) k = Some v"
    and "on_access_divides_by_zero (m_access_policy c)"
  shows "\<exists>c'. get k c = Throws Division_by_zero c'"
  using assms(1) access_on_access_divides_by_zero [OF assms(2), of k]
  by (auto simp: get_def storage_find_def)

section \<open>Overwriting a key\<close>

lemma put_then_overwrite:
  fixes c :: "('k, 'v) policy_based_cache"
  assumes "\<not> eviction_count_divides_by_zero (m_capacity_policy c)"
  shows "\<exists>c1. put k v1 c = Returns () c1
          \<and> map_of (m_storage_policy c1) k = Some v1
          \<and> put k v2 c1 = Returns ()
               (c1\<lparr>m_storage_policy := AList.update k v2 (m_storage_policy c1),
                   m_eviction_policy := eviction_on_update k (m_eviction_policy c1)\<rparr>)"
proof -
  obtain c1 where c1: "put k v1 c = Returns () c1" "map_of (m_storage_policy c1) k = Some v1"
    using put_returns [OF assms, of k v1] by auto
  then have "map_of (m_storage_policy c1) k \<noteq> None" by simp
  from put_present_key [OF this, of v2] c1 show ?thesis by auto
qed

text \<open>
  Claim C8.  On every configuration of the policy-composed cache and from every state,
  \<^verbatim>\<open>put(k,v1); put(k,v2)\<close> both return, the following \<^verbatim>\<open>get(k)\<close> returns \<open>v2\<close>, and
  \<^verbatim>\<open>size()\<close> after the second \<^verbatim>\<open>put\<close> equals \<^verbatim>\<open>size()\<close> after the first.  The second
  \<^verbatim>\<open>put\<close> overwrites in place and evicts nothing (storage holds the same keys, at the
  same places), and it leaves a FIFO eviction policy as it was, so the insertion order
  does not change.

  Every eviction, access and capacity policy is covered, in every state but two: a
  memory capacity policy whose item size estimate and memory limit are both 0, where
  \<^verbatim>\<open>eviction_count\<close> divides by zero (lemma \<open>put_divides_by_zero\<close>), and a time decay
  access policy whose decay interval is 0, where \<^verbatim>\<open>on_access\<close> divides by zero (lemma
  \<open>get_divides_by_zero\<close>).  No cache is constructed in such a state and no member
  function of the cache leads into one: the constructor of the cache passes the item
  size \<^verbatim>\<open>sizeof(key_t) + sizeof(value_t)\<close>, which is positive, and leaves the decay
  interval at its default of 100, and nothing changes the two afterwards (lemma
  \<open>cache_never_divides_by_zero\<close>).
\<close>

theorem put_twice_overwrites_in_place:
  fixes c :: "('k, 'v) policy_based_cache"
  assumes "\<not> eviction_count_divides_by_zero (m_capacity_policy c)"
    and "\<not> on_access_divides_by_zero (m_access_policy c)"
  shows "replies [Put k v1, Put k v2, Get k] c = [Done, Done, Value v2]
     \<and> cache_size (state_after [Put k v1, Put k v2] c) = cache_size (state_after [Put k v1] c)
     \<and> map fst (m_storage_policy (state_after [Put k v1, Put k v2] c))
         = map fst (m_storage_policy (state_after [Put k v1] c))
     \<and> (\<forall>s. m_eviction_policy (state_after [Put k v1] c) = FIFO s
            \<longrightarrow> m_eviction_policy (state_after [Put k v1, Put k v2] c) = FIFO s)"
proof -
  obtain c1 where p1: "put k v1 c = Returns () c1"
    and in1: "map_of (m_storage_policy c1) k = Some v1"
    and p2: "put k v2 c1 = Returns ()
               (c1\<lparr>m_storage_policy := AList.update k v2 (m_storage_policy c1),
                   m_eviction_policy := eviction_on_update k (m_eviction_policy c1)\<rparr>)"
    using put_then_overwrite [OF assms(1), of k v1 v2] by auto
  define c2 where "c2 = c1\<lparr>m_storage_policy := AList.update k v2 (m_storage_policy c1),
                   m_eviction_policy := eviction_on_update k (m_eviction_policy c1)\<rparr>"
  have in2: "map_of (m_storage_policy c2) k = Some v2"
    by (simp add: c2_def update_conv')
  have "m_access_policy c1 = m_access_policy c"
    using put_access_policy [of k v1 c] p1 by simp
  with assms(2) have "\<not> on_access_divides_by_zero (m_access_policy c2)"
    by (simp add: c2_def)
  with in2 obtain c3 where g: "get k c2 = Returns v2 c3"
    using get_present_key [of c2 k v2] by auto
  from in1 have mem: "k \<in> set (map fst (m_storage_policy c1))"
    by (metis map_of_eq_None_iff option.distinct(1) set_map)
  have s1: "state_after [Put k v1] c = c1"
    using p1 by (simp add: state_after_def)
  have s2: "state_after [Put k v1, Put k v2] c = c2"
    using p1 p2 by (simp add: state_after_def c2_def)
  have r: "replies [Put k v1, Put k v2, Get k] c = [Done, Done, Value v2]"
    using p1 p2 g by (simp add: replies_def c2_def)
  have keys: "map fst (m_storage_policy c2) = map fst (m_storage_policy c1)"
    using mem by (simp add: c2_def update_keys)
  then have "length (map fst (m_storage_policy c2)) = length (map fst (m_storage_policy c1))"
    by simp
  then have sz: "cache_size c2 = cache_size c1"
    by (simp add: cache_size_def storage_size_def)
  have fifo: "m_eviction_policy c2 = FIFO s" if "m_eviction_policy c1 = FIFO s" for s
    using that by (simp add: c2_def fifo_on_update_def)
  from r sz keys fifo show ?thesis
    unfolding s1 s2 by blast
qed

text \<open>
  The FIFO scenario of the specification as an instance: capacity 2,
  \<^verbatim>\<open>put(1,"a"); put(2,"b"); put(1,"a2"); get(1)\<close> returns \<^verbatim>\<open>"a2"\<close>, two entries
  remain and the queue of the policy still reads 1, 2.
\<close>

theorem put_twice_overwrites_in_place_witness:
  "\<not> eviction_count_divides_by_zero
       (m_capacity_policy (state_after [Put 2 ''b''] (make_fifo_cache 2 counting_generator
          :: (nat, string) policy_based_cache)))
   \<and> \<not> on_access_divides_by_zero
       (m_access_policy (state_after [Put 2 ''b''] (make_fifo_cache 2 counting_generator
          :: (nat, string) policy_based_cache)))
   \<and> replies [Put (1::nat) ''a'', Put 1 ''a2'', Get 1]
       (state_after [Put 2 ''b''] (make_fifo_cache 2 counting_generator))
     = [Done, Done, Value ''a2'']
   \<and> m_eviction_policy (state_after [Put (1::nat) ''a'']
         (state_after [Put 2 ''b''] (make_fifo_cache 2 counting_generator)
            :: (nat, string) policy_based_cache))
       = FIFO \<lparr>fifo_insertion_queue = [2, 1], fifo_key_exists = [(2, True), (1, True)]\<rparr>
   \<and> m_eviction_policy (state_after [Put (1::nat) ''a'', Put 1 ''a2'']
         (state_after [Put 2 ''b''] (make_fifo_cache 2 counting_generator)
            :: (nat, string) policy_based_cache))
       = FIFO \<lparr>fifo_insertion_queue = [2, 1], fifo_key_exists = [(2, True), (1, True)]\<rparr>"
proof -
  let ?c = "state_after [Put 2 ''b''] (make_fifo_cache 2 counting_generator)
              :: (nat, string) policy_based_cache"
  have h: "m_eviction_policy (state_after [Put (1::nat) ''a''] ?c)
       = FIFO \<lparr>fifo_insertion_queue = [2, 1], fifo_key_exists = [(2, True), (1, True)]\<rparr>"
    by (simp add: make_fifo_cache_def run_defs cache_defs fifo_defs storage_defs fixed_defs)
  have d1: "\<not> eviction_count_divides_by_zero (m_capacity_policy ?c)"
    by (simp add: make_fifo_cache_def run_defs cache_defs fifo_defs storage_defs fixed_defs)
  have d2: "\<not> on_access_divides_by_zero (m_access_policy ?c)"
    by (simp add: make_fifo_cache_def run_defs cache_defs fifo_defs storage_defs fixed_defs)
  note th = put_twice_overwrites_in_place [OF d1 d2, of 1 "''a''" "''a2''"]
  from th have r: "replies [Put (1::nat) ''a'', Put 1 ''a2'', Get 1] ?c = [Done, Done, Value ''a2'']"
    by (rule conjunct1)
  from th h have "m_eviction_policy (state_after [Put (1::nat) ''a'', Put 1 ''a2''] ?c)
       = FIFO \<lparr>fifo_insertion_queue = [2, 1], fifo_key_exists = [(2, True), (1, True)]\<rparr>"
    by blast
  with d1 d2 r h show ?thesis by blast
qed

section \<open>The divisors of the memory capacity and time decay policies\<close>

text \<open>
  No member function of the cache changes the item size estimate of a memory capacity
  policy or the decay interval of a time decay access policy, so a cache constructed
  with a positive item size never divides by zero.
\<close>

lemma evict_one_capacity_policy:
  "m_capacity_policy (final_state (evict_one c)) = m_capacity_policy c"
  by (simp add: evict_one_def split: outcome.splits prod.splits)

lemma evict_entries_capacity_policy:
  "m_capacity_policy (final_state (evict_entries n c)) = m_capacity_policy c"
proof (induction n arbitrary: c)
  case 0
  show ?case by simp
next
  case (Suc n)
  show ?case
  proof (cases "evict_one c")
    case (Returns u c1)
    with evict_one_capacity_policy [of c] Suc.IH [of c1] show ?thesis by simp
  next
    case (Throws e c1)
    with evict_one_capacity_policy [of c] show ?thesis by simp
  qed
qed

lemma capacity_needs_eviction_item_size:
  "item_size_estimate_is_positive (snd (capacity_needs_eviction n cp))
     = item_size_estimate_is_positive cp"
  by (cases cp) (simp_all add: memory_needs_eviction_def Let_def)

lemma capacity_set_capacity_item_size:
  "item_size_estimate_is_positive (capacity_set_capacity n cp)
     = item_size_estimate_is_positive cp"
  by (cases cp) (simp_all add: memory_set_capacity_def)

lemma evict_if_necessary_for_insertion_item_size:
  "item_size_estimate_is_positive
     (m_capacity_policy (final_state (evict_if_necessary_for_insertion c)))
     = item_size_estimate_is_positive (m_capacity_policy c)"
proof -
  obtain needed cp where n:
    "capacity_needs_eviction (storage_size (m_storage_policy c)) (m_capacity_policy c)
       = (needed, cp)"
    by (cases "capacity_needs_eviction (storage_size (m_storage_policy c)) (m_capacity_policy c)")
  with capacity_needs_eviction_item_size
         [of "storage_size (m_storage_policy c)" "m_capacity_policy c"]
  have cp: "item_size_estimate_is_positive cp
      = item_size_estimate_is_positive (m_capacity_policy c)"
    by simp
  show ?thesis
    using n cp evict_entries_capacity_policy [of _ "c\<lparr>m_capacity_policy := cp\<rparr>"]
    by (simp add: evict_if_necessary_for_insertion_def Let_def split: option.splits)
qed

lemma perform_item_size:
  "item_size_estimate_is_positive (m_capacity_policy (snd (perform op c)))
     = item_size_estimate_is_positive (m_capacity_policy c)"
proof (cases op)
  case (Put k v)
  with evict_if_necessary_for_insertion_item_size [of c] show ?thesis
    by (auto simp: put_def split: outcome.splits)
next
  case (Get k)
  then show ?thesis by (simp add: get_def split: option.splits outcome.splits)
next
  case (Erase k)
  then show ?thesis by (simp add: erase_def split: prod.splits)
next
  case (Set_capacity n)
  let ?c0 = "c\<lparr>m_capacity_policy := capacity_set_capacity n (m_capacity_policy c)\<rparr>"
  have eq: "set_capacity n c = evict_if_necessary_for_insertion ?c0"
    by (simp add: set_capacity_def evict_if_necessary_for_capacity_change_def
          evict_if_necessary_for_insertion_def)
  have "snd (perform (Set_capacity n) c) = final_state (set_capacity n c)"
    by (cases "set_capacity n c") simp_all
  with Set_capacity eq evict_if_necessary_for_insertion_item_size [of ?c0]
  show ?thesis
    by (simp add: capacity_set_capacity_item_size)
next
  case Clear
  then show ?thesis by (simp add: clear_def)
qed simp_all

lemma perform_all_item_size:
  "item_size_estimate_is_positive (m_capacity_policy (state_after ops c))
     = item_size_estimate_is_positive (m_capacity_policy c)"
proof (induction ops arbitrary: c)
  case Nil
  show ?case by (simp add: state_after_def)
next
  case (Cons op ops)
  have "state_after (op # ops) c = state_after ops (snd (perform op c))"
    by (simp add: state_after_def split: prod.splits)
  with Cons.IH [of "snd (perform op c)"] perform_item_size [of op c] show ?case by simp
qed

lemma item_size_estimate_positive_defined:
  "item_size_estimate_is_positive cp \<Longrightarrow> \<not> eviction_count_divides_by_zero cp"
  by (cases cp) simp_all

lemma access_on_access_interval:
  "on_access_divides_by_zero (final_state (access_on_access k ap))
     = on_access_divides_by_zero ap"
  by (cases ap) (simp_all add: Let_def)

lemma access_on_miss_interval:
  "on_access_divides_by_zero (snd (access_on_miss k ap)) = on_access_divides_by_zero ap"
  by (cases ap) simp_all

lemma get_interval:
  "on_access_divides_by_zero (m_access_policy (final_state (get k c)))
     = on_access_divides_by_zero (m_access_policy c)"
proof (cases "storage_find k (m_storage_policy c)")
  case None
  then show ?thesis by (simp add: get_def access_on_miss_interval)
next
  case (Some v)
  with access_on_access_interval [of k "m_access_policy c"] show ?thesis
    by (cases "access_on_access k (m_access_policy c)") (simp_all add: get_def)
qed

lemma perform_interval:
  "on_access_divides_by_zero (m_access_policy (snd (perform op c)))
     = on_access_divides_by_zero (m_access_policy c)"
proof (cases op)
  case (Put k v)
  have "snd (perform (Put k v) c) = final_state (put k v c)"
    by (cases "put k v c") simp_all
  with Put show ?thesis by (simp add: put_access_policy)
next
  case (Get k)
  have "snd (perform (Get k) c) = final_state (get k c)"
    by (cases "get k c") simp_all
  with Get show ?thesis by (simp add: get_interval)
next
  case (Erase k)
  then show ?thesis by (simp add: erase_def split: prod.splits)
next
  case (Set_capacity n)
  let ?c0 = "c\<lparr>m_capacity_policy := capacity_set_capacity n (m_capacity_policy c)\<rparr>"
  have eq: "set_capacity n c = evict_if_necessary_for_insertion ?c0"
    by (simp add: set_capacity_def evict_if_necessary_for_capacity_change_def
          evict_if_necessary_for_insertion_def)
  have "snd (perform (Set_capacity n) c) = final_state (set_capacity n c)"
    by (cases "set_capacity n c") simp_all
  with Set_capacity eq evict_if_necessary_for_insertion_access_policy [of ?c0]
  show ?thesis by simp
next
  case Clear
  then show ?thesis by (simp add: clear_def)
qed simp_all

lemma perform_all_interval:
  "on_access_divides_by_zero (m_access_policy (state_after ops c))
     = on_access_divides_by_zero (m_access_policy c)"
proof (induction ops arbitrary: c)
  case Nil
  show ?case by (simp add: state_after_def)
next
  case (Cons op ops)
  have "state_after (op # ops) c = state_after ops (snd (perform op c))"
    by (simp add: state_after_def split: prod.splits)
  with Cons.IH [of "snd (perform op c)"] perform_interval [of op c] show ?case by simp
qed

lemma cache_never_divides_by_zero:
  fixes c :: "('k, 'v) policy_based_cache"
  assumes "cp \<noteq> Memory_capacity 0"
    and "c = state_after ops (new_policy_based_cache ev ac cp n now g)"
  shows "\<not> eviction_count_divides_by_zero (m_capacity_policy c)"
    and "\<not> on_access_divides_by_zero (m_access_policy c)"
proof -
  let ?c0 = "new_policy_based_cache ev ac cp n now g :: ('k, 'v) policy_based_cache"
  from assms(1) have "item_size_estimate_is_positive (m_capacity_policy ?c0)"
    by (cases cp) (simp_all add: new_policy_based_cache_def split: prod.splits)
  then have "item_size_estimate_is_positive (m_capacity_policy c)"
    unfolding assms(2) perform_all_item_size .
  then show "\<not> eviction_count_divides_by_zero (m_capacity_policy c)"
    by (rule item_size_estimate_positive_defined)
  have "\<not> on_access_divides_by_zero (m_access_policy ?c0)"
    by (cases ac) (simp_all add: new_policy_based_cache_def split: prod.splits)
  then show "\<not> on_access_divides_by_zero (m_access_policy c)"
    unfolding assms(2) perform_all_interval .
qed

section \<open>Frequency counters\<close>

lemma size_t_add_below_max: "f < 2 ^ 64 - 1 \<Longrightarrow> size_t_add f (Suc 0) = Suc f"
  by (simp add: size_t_add_def)

lemma size_t_add_at_max: "size_t_add (2 ^ 64 - 1) 1 = 0"
  by (simp add: size_t_add_def)

lemma lfu_frequency_on_insert:
  "lfu_frequency (lfu_on_insert j s) k = (if k = j then Some 1 else lfu_frequency s k)"
  by (simp add: lfu_frequency_def lfu_on_insert_def update_conv')

lemma lfu_frequency_increment:
  "lfu_frequency (lfu_increment_frequency j s) k =
     (if k = j then map_option (\<lambda>f. size_t_add f 1) (lfu_frequency s k)
      else lfu_frequency s k)"
  by (simp add: lfu_frequency_def lfu_increment_frequency_def Let_def update_conv'
        split: option.splits)

lemma lfu_frequency_remove_key:
  "lfu_frequency (lfu_remove_key j s) k = (if k = j then None else lfu_frequency s k)"
  by (simp add: lfu_frequency_def lfu_remove_key_def Let_def delete_conv' split: option.splits)

lemma lfu_select_victim_state:
  "(case lfu_select_victim s of Returns _ s' \<Rightarrow> s' | Throws _ s' \<Rightarrow> s') = s"
  by (simp add: lfu_select_victim_def split: option.splits)

lemma lfu_frequency_call:
  assumes "lfu_frequency s k = Some f" and "lfu_frequency (lfu_call call s) k = Some f'"
  shows "f' = (if call = On_insert k then 1
               else if call = On_access k \<or> call = On_update k then size_t_add f 1
               else f)"
proof (cases call)
  case (On_access j)
  with assms show ?thesis
    by (auto simp: lfu_on_access_def lfu_frequency_increment split: if_splits)
next
  case (On_insert j)
  with assms show ?thesis
    by (auto simp: lfu_frequency_on_insert split: if_splits)
next
  case (On_update j)
  with assms show ?thesis
    by (auto simp: lfu_on_update_def lfu_frequency_increment split: if_splits)
next
  case Select_victim
  with assms show ?thesis
    by (simp add: lfu_select_victim_state)
next
  case (Remove_key j)
  with assms show ?thesis
    by (auto simp: lfu_frequency_remove_key split: if_splits)
next
  case Clear_policy
  with assms show ?thesis
    by (simp add: lfu_clear_def lfu_frequency_def)
qed

lemma mfu_frequency_on_insert:
  "mfu_frequency (mfu_on_insert j s) k = (if k = j then Some 1 else mfu_frequency s k)"
  by (simp add: mfu_frequency_def mfu_on_insert_def update_conv')

lemma mfu_frequency_increment:
  "mfu_frequency (mfu_increment_frequency j s) k =
     (if k = j then map_option (\<lambda>f. size_t_add f 1) (mfu_frequency s k)
      else mfu_frequency s k)"
  by (simp add: mfu_frequency_def mfu_increment_frequency_def Let_def update_conv'
        split: option.splits)

lemma mfu_frequency_remove_key:
  "mfu_frequency (mfu_remove_key j s) k = (if k = j then None else mfu_frequency s k)"
  by (simp add: mfu_frequency_def mfu_remove_key_def Let_def delete_conv' split: option.splits)

lemma mfu_select_victim_state:
  "(case mfu_select_victim s of Returns _ s' \<Rightarrow> s' | Throws _ s' \<Rightarrow> s') = s"
  by (simp add: mfu_select_victim_def split: option.splits)

lemma mfu_frequency_call:
  assumes "mfu_frequency s k = Some f" and "mfu_frequency (mfu_call call s) k = Some f'"
  shows "f' = (if call = On_insert k then 1
               else if call = On_access k \<or> call = On_update k then size_t_add f 1
               else f)"
proof (cases call)
  case (On_access j)
  with assms show ?thesis
    by (auto simp: mfu_on_access_def mfu_frequency_increment split: if_splits)
next
  case (On_insert j)
  with assms show ?thesis
    by (auto simp: mfu_frequency_on_insert split: if_splits)
next
  case (On_update j)
  with assms show ?thesis
    by (auto simp: mfu_on_update_def mfu_frequency_increment split: if_splits)
next
  case Select_victim
  with assms show ?thesis
    by (simp add: mfu_select_victim_state)
next
  case (Remove_key j)
  with assms show ?thesis
    by (auto simp: mfu_frequency_remove_key split: if_splits)
next
  case Clear_policy
  with assms show ?thesis
    by (simp add: mfu_clear_def mfu_frequency_def)
qed

text \<open>
  A policy that tracks one key: after \<^verbatim>\<open>on_insert(k)\<close> and \<open>n\<close> calls of
  \<^verbatim>\<open>on_access(k)\<close> the counter of the key is \<open>1 + n\<close> modulo \<open>2 ^ 64\<close>, and the key is alone
  in the bucket of that frequency.
\<close>

lemma lfu_access_of_one_key:
  "lfu_on_access k
     \<lparr>lfu_key_frequency = [(k, f)], lfu_frequency_buckets = [(f, [k])],
      lfu_key_to_iterator = {k}\<rparr>
   = \<lparr>lfu_key_frequency = [(k, size_t_add f 1)],
      lfu_frequency_buckets = [(size_t_add f 1, [k])],
      lfu_key_to_iterator = {k}\<rparr>"
  by (simp add: lfu_on_access_def lfu_increment_frequency_def Let_def bucket_push_back_def
        bucket_erase_key_def erase_last_node_def bucket_at_def ordered_map_erase_def)

lemma lfu_accesses_of_one_key:
  "(lfu_on_access k ^^ n) (lfu_on_insert k new_lfu_eviction_policy)
     = \<lparr>lfu_key_frequency = [(k, (1 + n) mod 2 ^ 64)],
        lfu_frequency_buckets = [((1 + n) mod 2 ^ 64, [k])],
        lfu_key_to_iterator = {k}\<rparr>"
proof (induction n)
  case 0
  show ?case
    by (simp add: lfu_on_insert_def new_lfu_eviction_policy_def bucket_push_back_def
          bucket_at_def)
next
  case (Suc n)
  have arith: "size_t_add ((1 + n) mod 2 ^ 64) 1 = (1 + Suc n) mod 2 ^ 64"
    by (simp add: size_t_add_def mod_Suc_eq)
  have "(lfu_on_access k ^^ Suc n) (lfu_on_insert k new_lfu_eviction_policy)
      = lfu_on_access k ((lfu_on_access k ^^ n) (lfu_on_insert k new_lfu_eviction_policy))"
    by simp
  also note Suc.IH
  also note lfu_access_of_one_key
  finally show ?case unfolding arith .
qed

lemma mfu_access_of_one_key:
  "mfu_on_access k
     \<lparr>mfu_key_frequency = [(k, f)], mfu_frequency_buckets = [(f, [k])],
      mfu_key_to_iterator = {k}\<rparr>
   = \<lparr>mfu_key_frequency = [(k, size_t_add f 1)],
      mfu_frequency_buckets = [(size_t_add f 1, [k])],
      mfu_key_to_iterator = {k}\<rparr>"
  by (simp add: mfu_on_access_def mfu_increment_frequency_def Let_def bucket_push_back_def
        bucket_erase_key_def erase_last_node_def bucket_at_def ordered_map_erase_def)

lemma mfu_accesses_of_one_key:
  "(mfu_on_access k ^^ n) (mfu_on_insert k new_mfu_eviction_policy)
     = \<lparr>mfu_key_frequency = [(k, (1 + n) mod 2 ^ 64)],
        mfu_frequency_buckets = [((1 + n) mod 2 ^ 64, [k])],
        mfu_key_to_iterator = {k}\<rparr>"
proof (induction n)
  case 0
  show ?case
    by (simp add: mfu_on_insert_def new_mfu_eviction_policy_def bucket_push_back_def
          bucket_at_def)
next
  case (Suc n)
  have arith: "size_t_add ((1 + n) mod 2 ^ 64) 1 = (1 + Suc n) mod 2 ^ 64"
    by (simp add: size_t_add_def mod_Suc_eq)
  have "(mfu_on_access k ^^ Suc n) (mfu_on_insert k new_mfu_eviction_policy)
      = mfu_on_access k ((mfu_on_access k ^^ n) (mfu_on_insert k new_mfu_eviction_policy))"
    by simp
  also note Suc.IH
  also note mfu_access_of_one_key
  finally show ?case unfolding arith .
qed

lemma lfu_frequency_after_accesses:
  "lfu_frequency ((lfu_on_access k ^^ n) (lfu_on_insert k new_lfu_eviction_policy)) k
     = Some ((1 + n) mod 2 ^ 64)"
  unfolding lfu_accesses_of_one_key by (simp add: lfu_frequency_def)

lemma mfu_frequency_after_accesses:
  "mfu_frequency ((mfu_on_access k ^^ n) (mfu_on_insert k new_mfu_eviction_policy)) k
     = Some ((1 + n) mod 2 ^ 64)"
  unfolding mfu_accesses_of_one_key by (simp add: mfu_frequency_def)

text \<open>
  Claim C9 says that the frequency counter of a key never decreases while the key is
  tracked: that every \<^verbatim>\<open>on_access\<close> and \<^verbatim>\<open>on_update\<close> strictly increases it and that no
  operation lowers it.  Two calls of the LFU and of the MFU policy lower the counter of
  a key that is tracked before and after the call.  \<^verbatim>\<open>on_insert(k)\<close> assigns 1 whether
  or not the key is tracked: after \<^verbatim>\<open>on_insert(1); on_access(1)\<close> the counter of key 1
  is 2, and \<^verbatim>\<open>on_insert(1)\<close> sets it back to 1.  And the counter is a \<^verbatim>\<open>std::size_t\<close>:
  after \<^verbatim>\<open>on_insert(1)\<close> and \<open>2 ^ 64 - 2\<close> calls of \<^verbatim>\<open>on_access(1)\<close> it is \<open>2 ^ 64 - 1\<close>, and
  the next \<^verbatim>\<open>on_access(1)\<close> makes it 0.
\<close>

theorem frequency_counter_is_lowered:
  "lfu_frequency (lfu_on_access 1 (lfu_on_insert (1::nat) new_lfu_eviction_policy)) 1 = Some 2
   \<and> lfu_frequency
        (lfu_on_insert 1 (lfu_on_access 1 (lfu_on_insert (1::nat) new_lfu_eviction_policy))) 1
       = Some 1
   \<and> lfu_frequency
        ((lfu_on_access 1 ^^ (2 ^ 64 - 2)) (lfu_on_insert (1::nat) new_lfu_eviction_policy)) 1
       = Some (2 ^ 64 - 1)
   \<and> lfu_frequency
        (lfu_on_access 1
          ((lfu_on_access 1 ^^ (2 ^ 64 - 2)) (lfu_on_insert (1::nat) new_lfu_eviction_policy))) 1
       = Some 0
   \<and> mfu_frequency (mfu_on_access 1 (mfu_on_insert (1::nat) new_mfu_eviction_policy)) 1 = Some 2
   \<and> mfu_frequency
        (mfu_on_insert 1 (mfu_on_access 1 (mfu_on_insert (1::nat) new_mfu_eviction_policy))) 1
       = Some 1
   \<and> mfu_frequency
        ((mfu_on_access 1 ^^ (2 ^ 64 - 2)) (mfu_on_insert (1::nat) new_mfu_eviction_policy)) 1
       = Some (2 ^ 64 - 1)
   \<and> mfu_frequency
        (mfu_on_access 1
          ((mfu_on_access 1 ^^ (2 ^ 64 - 2)) (mfu_on_insert (1::nat) new_mfu_eviction_policy))) 1
       = Some 0"
proof -
  let ?l = "lfu_on_insert (1::nat) new_lfu_eviction_policy"
  let ?m = "mfu_on_insert (1::nat) new_mfu_eviction_policy"
  have l0: "lfu_frequency ?l 1 = Some 1"
    by (simp add: lfu_frequency_on_insert)
  then have l1: "lfu_frequency (lfu_on_access 1 ?l) 1 = Some 2"
    by (simp add: lfu_on_access_def lfu_frequency_increment size_t_add_def)
  have l2: "lfu_frequency (lfu_on_insert 1 (lfu_on_access 1 ?l)) 1 = Some 1"
    by (simp add: lfu_frequency_on_insert)
  have l3: "lfu_frequency ((lfu_on_access 1 ^^ (2 ^ 64 - 2)) ?l) 1 = Some (2 ^ 64 - 1)"
    unfolding lfu_frequency_after_accesses by simp
  then have l4: "lfu_frequency (lfu_on_access 1 ((lfu_on_access 1 ^^ (2 ^ 64 - 2)) ?l)) 1 = Some 0"
    by (simp add: lfu_on_access_def lfu_frequency_increment size_t_add_def)
  have m0: "mfu_frequency ?m 1 = Some 1"
    by (simp add: mfu_frequency_on_insert)
  then have m1: "mfu_frequency (mfu_on_access 1 ?m) 1 = Some 2"
    by (simp add: mfu_on_access_def mfu_frequency_increment size_t_add_def)
  have m2: "mfu_frequency (mfu_on_insert 1 (mfu_on_access 1 ?m)) 1 = Some 1"
    by (simp add: mfu_frequency_on_insert)
  have m3: "mfu_frequency ((mfu_on_access 1 ^^ (2 ^ 64 - 2)) ?m) 1 = Some (2 ^ 64 - 1)"
    unfolding mfu_frequency_after_accesses by simp
  then have m4: "mfu_frequency (mfu_on_access 1 ((mfu_on_access 1 ^^ (2 ^ 64 - 2)) ?m)) 1 = Some 0"
    by (simp add: mfu_on_access_def mfu_frequency_increment size_t_add_def)
  from l1 l2 l3 l4 m1 m2 m3 m4 show ?thesis by blast
qed

text \<open>
  Claim C9, amended.  In the LFU and in the MFU policy, from every state:
  \<^verbatim>\<open>on_insert(k)\<close> sets the counter of \<open>k\<close> to 1;
  \<^verbatim>\<open>on_access(k)\<close> and \<^verbatim>\<open>on_update(k)\<close> of a tracked key with counter \<open>f\<close> set it to
  \<open>f + 1\<close> modulo \<open>2 ^ 64\<close>, which is \<open>f + 1\<close> when \<open>f < 2 ^ 64 - 1\<close>;
  a key tracked before and after a call has the same counter after it as before,
  unless the call is \<^verbatim>\<open>on_insert\<close>, \<^verbatim>\<open>on_access\<close> or \<^verbatim>\<open>on_update\<close> of that very key;
  hence the counter of a key that stays tracked and is below \<open>2 ^ 64 - 1\<close> does not
  decrease under any call other than \<^verbatim>\<open>on_insert\<close> of that key.
\<close>

theorem frequency_counter_after_a_call:
  fixes s :: "'k lfu_eviction_policy" and m :: "'k mfu_eviction_policy"
  shows "lfu_frequency (lfu_on_insert k s) k = Some 1
     \<and> (lfu_frequency s k = Some f \<longrightarrow>
          lfu_frequency (lfu_on_access k s) k = Some ((f + 1) mod 2 ^ 64)
          \<and> lfu_frequency (lfu_on_update k s) k = Some ((f + 1) mod 2 ^ 64))
     \<and> (lfu_frequency s k = Some f \<and> f < 2 ^ 64 - 1 \<longrightarrow>
          lfu_frequency (lfu_on_access k s) k = Some (f + 1)
          \<and> lfu_frequency (lfu_on_update k s) k = Some (f + 1))
     \<and> (lfu_frequency s k = Some f \<and> lfu_frequency (lfu_call call s) k = Some f'
          \<and> call \<noteq> On_insert k \<and> call \<noteq> On_access k \<and> call \<noteq> On_update k \<longrightarrow> f' = f)
     \<and> (lfu_frequency s k = Some f \<and> lfu_frequency (lfu_call call s) k = Some f'
          \<and> call \<noteq> On_insert k \<and> f < 2 ^ 64 - 1 \<longrightarrow> f \<le> f')
     \<and> mfu_frequency (mfu_on_insert k m) k = Some 1
     \<and> (mfu_frequency m k = Some f \<longrightarrow>
          mfu_frequency (mfu_on_access k m) k = Some ((f + 1) mod 2 ^ 64)
          \<and> mfu_frequency (mfu_on_update k m) k = Some ((f + 1) mod 2 ^ 64))
     \<and> (mfu_frequency m k = Some f \<and> f < 2 ^ 64 - 1 \<longrightarrow>
          mfu_frequency (mfu_on_access k m) k = Some (f + 1)
          \<and> mfu_frequency (mfu_on_update k m) k = Some (f + 1))
     \<and> (mfu_frequency m k = Some f \<and> mfu_frequency (mfu_call call m) k = Some f'
          \<and> call \<noteq> On_insert k \<and> call \<noteq> On_access k \<and> call \<noteq> On_update k \<longrightarrow> f' = f)
     \<and> (mfu_frequency m k = Some f \<and> mfu_frequency (mfu_call call m) k = Some f'
          \<and> call \<noteq> On_insert k \<and> f < 2 ^ 64 - 1 \<longrightarrow> f \<le> f')"
proof -
  have l1: "lfu_frequency (lfu_on_insert k s) k = Some 1"
    by (simp add: lfu_frequency_on_insert)
  have l2: "lfu_frequency (lfu_on_access k s) k = Some ((f + 1) mod 2 ^ 64)
          \<and> lfu_frequency (lfu_on_update k s) k = Some ((f + 1) mod 2 ^ 64)"
    if "lfu_frequency s k = Some f"
    using that
    by (simp add: lfu_on_access_def lfu_on_update_def lfu_frequency_increment size_t_add_def)
  have l3: "lfu_frequency (lfu_on_access k s) k = Some (f + 1)
          \<and> lfu_frequency (lfu_on_update k s) k = Some (f + 1)"
    if "lfu_frequency s k = Some f \<and> f < 2 ^ 64 - 1"
    using that
    by (simp add: lfu_on_access_def lfu_on_update_def lfu_frequency_increment
          size_t_add_below_max)
  have l4: "f' = f"
    if "lfu_frequency s k = Some f \<and> lfu_frequency (lfu_call call s) k = Some f'
          \<and> call \<noteq> On_insert k \<and> call \<noteq> On_access k \<and> call \<noteq> On_update k"
    using that lfu_frequency_call [of s k f call f'] by simp
  have l5: "f \<le> f'"
    if "lfu_frequency s k = Some f \<and> lfu_frequency (lfu_call call s) k = Some f'
          \<and> call \<noteq> On_insert k \<and> f < 2 ^ 64 - 1"
    using that lfu_frequency_call [of s k f call f']
    by (simp add: size_t_add_below_max split: if_splits)
  have m1: "mfu_frequency (mfu_on_insert k m) k = Some 1"
    by (simp add: mfu_frequency_on_insert)
  have m2: "mfu_frequency (mfu_on_access k m) k = Some ((f + 1) mod 2 ^ 64)
          \<and> mfu_frequency (mfu_on_update k m) k = Some ((f + 1) mod 2 ^ 64)"
    if "mfu_frequency m k = Some f"
    using that
    by (simp add: mfu_on_access_def mfu_on_update_def mfu_frequency_increment size_t_add_def)
  have m3: "mfu_frequency (mfu_on_access k m) k = Some (f + 1)
          \<and> mfu_frequency (mfu_on_update k m) k = Some (f + 1)"
    if "mfu_frequency m k = Some f \<and> f < 2 ^ 64 - 1"
    using that
    by (simp add: mfu_on_access_def mfu_on_update_def mfu_frequency_increment
          size_t_add_below_max)
  have m4: "f' = f"
    if "mfu_frequency m k = Some f \<and> mfu_frequency (mfu_call call m) k = Some f'
          \<and> call \<noteq> On_insert k \<and> call \<noteq> On_access k \<and> call \<noteq> On_update k"
    using that mfu_frequency_call [of m k f call f'] by simp
  have m5: "f \<le> f'"
    if "mfu_frequency m k = Some f \<and> mfu_frequency (mfu_call call m) k = Some f'
          \<and> call \<noteq> On_insert k \<and> f < 2 ^ 64 - 1"
    using that mfu_frequency_call [of m k f call f']
    by (simp add: size_t_add_below_max split: if_splits)
  from l1 l2 l3 l4 l5 m1 m2 m3 m4 m5 show ?thesis by blast
qed

text \<open>
  Two instances.  After \<^verbatim>\<open>on_insert(1)\<close> the counter of key 1 is 1; \<^verbatim>\<open>on_access(1)\<close> and
  \<^verbatim>\<open>on_update(1)\<close> make it 2, \<^verbatim>\<open>on_insert(2)\<close> leaves it at 1.  After \<^verbatim>\<open>on_insert(1)\<close>
  and \<open>2 ^ 64 - 2\<close> calls of \<^verbatim>\<open>on_access(1)\<close> the counter is \<open>2 ^ 64 - 1\<close>, and
  \<^verbatim>\<open>on_update(1)\<close> makes it 0.
\<close>

theorem frequency_counter_after_a_call_witness:
  "lfu_frequency (lfu_on_insert (1::nat) new_lfu_eviction_policy) 1 = Some 1
   \<and> lfu_frequency (lfu_on_access 1 (lfu_on_insert (1::nat) new_lfu_eviction_policy)) 1 = Some 2
   \<and> lfu_frequency (lfu_on_update 1 (lfu_on_insert (1::nat) new_lfu_eviction_policy)) 1 = Some 2
   \<and> lfu_frequency (lfu_call (On_insert 2) (lfu_on_insert (1::nat) new_lfu_eviction_policy)) 1
       = Some 1
   \<and> lfu_frequency
        ((lfu_on_access 1 ^^ (2 ^ 64 - 2)) (lfu_on_insert (1::nat) new_lfu_eviction_policy)) 1
       = Some (2 ^ 64 - 1)
   \<and> lfu_frequency
        (lfu_on_update 1
          ((lfu_on_access 1 ^^ (2 ^ 64 - 2)) (lfu_on_insert (1::nat) new_lfu_eviction_policy))) 1
       = Some 0
   \<and> mfu_frequency (mfu_on_insert (1::nat) new_mfu_eviction_policy) 1 = Some 1
   \<and> mfu_frequency (mfu_on_access 1 (mfu_on_insert (1::nat) new_mfu_eviction_policy)) 1 = Some 2
   \<and> mfu_frequency (mfu_on_update 1 (mfu_on_insert (1::nat) new_mfu_eviction_policy)) 1 = Some 2
   \<and> mfu_frequency (mfu_call (On_insert 2) (mfu_on_insert (1::nat) new_mfu_eviction_policy)) 1
       = Some 1
   \<and> mfu_frequency
        ((mfu_on_access 1 ^^ (2 ^ 64 - 2)) (mfu_on_insert (1::nat) new_mfu_eviction_policy)) 1
       = Some (2 ^ 64 - 1)
   \<and> mfu_frequency
        (mfu_on_update 1
          ((mfu_on_access 1 ^^ (2 ^ 64 - 2)) (mfu_on_insert (1::nat) new_mfu_eviction_policy))) 1
       = Some 0"
proof -
  let ?l = "lfu_on_insert (1::nat) new_lfu_eviction_policy"
  let ?m = "mfu_on_insert (1::nat) new_mfu_eviction_policy"
  let ?lmax = "(lfu_on_access 1 ^^ (2 ^ 64 - 2)) ?l"
  let ?mmax = "(mfu_on_access 1 ^^ (2 ^ 64 - 2)) ?m"
  note th1 = frequency_counter_after_a_call
      [where k = 1 and s = ?l and m = ?m and f = 1 and call = "On_insert 2" and f' = 1]
  note th2 = frequency_counter_after_a_call
      [where k = 1 and s = ?lmax and m = ?mmax and f = "2 ^ 64 - 1"
         and call = "On_insert 2" and f' = 1]
  have l1: "lfu_frequency ?l 1 = Some 1"
    by (simp add: lfu_frequency_on_insert)
  have m1: "mfu_frequency ?m 1 = Some 1"
    by (simp add: mfu_frequency_on_insert)
  have l2: "lfu_frequency (lfu_call (On_insert 2) ?l) 1 = Some 1"
    by (simp add: lfu_frequency_on_insert)
  have m2: "mfu_frequency (mfu_call (On_insert 2) ?m) 1 = Some 1"
    by (simp add: mfu_frequency_on_insert)
  have small: "(1::nat) < 2 ^ 64 - 1" by simp
  from th1 l1 small have "lfu_frequency (lfu_on_access 1 ?l) 1 = Some (1 + 1)
      \<and> lfu_frequency (lfu_on_update 1 ?l) 1 = Some (1 + 1)"
    by blast
  then have l3: "lfu_frequency (lfu_on_access 1 ?l) 1 = Some 2"
    and l4: "lfu_frequency (lfu_on_update 1 ?l) 1 = Some 2"
    by simp_all
  from th1 m1 small have "mfu_frequency (mfu_on_access 1 ?m) 1 = Some (1 + 1)
      \<and> mfu_frequency (mfu_on_update 1 ?m) 1 = Some (1 + 1)"
    by blast
  then have m3: "mfu_frequency (mfu_on_access 1 ?m) 1 = Some 2"
    and m4: "mfu_frequency (mfu_on_update 1 ?m) 1 = Some 2"
    by simp_all
  have l5: "lfu_frequency ?lmax 1 = Some (2 ^ 64 - 1)"
    unfolding lfu_frequency_after_accesses by simp
  have m5: "mfu_frequency ?mmax 1 = Some (2 ^ 64 - 1)"
    unfolding mfu_frequency_after_accesses by simp
  have wrap: "((2 ^ 64 - 1 + 1) mod 2 ^ 64 :: nat) = 0" by simp
  from th2 l5 have "lfu_frequency (lfu_on_update 1 ?lmax) 1 = Some ((2 ^ 64 - 1 + 1) mod 2 ^ 64)"
    by blast
  then have l6: "lfu_frequency (lfu_on_update 1 ?lmax) 1 = Some 0"
    unfolding wrap .
  from th2 m5 have "mfu_frequency (mfu_on_update 1 ?mmax) 1 = Some ((2 ^ 64 - 1 + 1) mod 2 ^ 64)"
    by blast
  then have m6: "mfu_frequency (mfu_on_update 1 ?mmax) 1 = Some 0"
    unfolding wrap .
  from l1 l2 l3 l4 l5 l6 m1 m2 m3 m4 m5 m6 show ?thesis by blast
qed

section \<open>RANDOM: where the victim comes from\<close>

lemma eviction_select_victim_seed:
  "rand_seed (snd (final_state (eviction_select_victim e g))) = rand_seed g"
  by (cases e)
     (simp_all add: lift_outcome_def lru_select_victim_def mru_select_victim_def
        fifo_select_victim_def lfu_select_victim_def mfu_select_victim_def
        random_select_victim_def std_rand_def Let_def
        split: list.splits option.splits prod.splits)

lemma evict_one_seed:
  "rand_seed (process_rand (final_state (evict_one c))) = rand_seed (process_rand c)"
proof -
  have "rand_seed (process_rand (final_state (evict_one c)))
      = rand_seed (snd (final_state
          (eviction_select_victim (m_eviction_policy c) (process_rand c))))"
    by (simp add: evict_one_def split: outcome.splits prod.splits)
  then show ?thesis by (simp add: eviction_select_victim_seed)
qed

lemma evict_entries_seed:
  "rand_seed (process_rand (final_state (evict_entries n c))) = rand_seed (process_rand c)"
proof (induction n arbitrary: c)
  case 0
  show ?case by simp
next
  case (Suc n)
  show ?case
  proof (cases "evict_one c")
    case (Returns u c1)
    with evict_one_seed [of c] Suc.IH [of c1] show ?thesis by simp
  next
    case (Throws e c1)
    with evict_one_seed [of c] show ?thesis by simp
  qed
qed

lemma evict_if_necessary_for_insertion_seed:
  "rand_seed (process_rand (final_state (evict_if_necessary_for_insertion c)))
     = rand_seed (process_rand c)"
  by (simp add: evict_if_necessary_for_insertion_def Let_def evict_entries_seed
        split: prod.splits option.splits)

lemma perform_seed:
  "rand_seed (process_rand (snd (perform op c))) = rand_seed (process_rand c)"
proof (cases op)
  case (Put k v)
  with evict_if_necessary_for_insertion_seed [of c] show ?thesis
    by (auto simp: put_def split: outcome.splits)
next
  case (Get k)
  then show ?thesis by (simp add: get_def split: option.splits outcome.splits)
next
  case (Erase k)
  then show ?thesis by (simp add: erase_def split: prod.splits)
next
  case (Set_capacity n)
  let ?c0 = "c\<lparr>m_capacity_policy := capacity_set_capacity n (m_capacity_policy c)\<rparr>"
  have eq: "set_capacity n c = evict_if_necessary_for_insertion ?c0"
    by (simp add: set_capacity_def evict_if_necessary_for_capacity_change_def
          evict_if_necessary_for_insertion_def)
  have "snd (perform (Set_capacity n) c) = final_state (set_capacity n c)"
    by (cases "set_capacity n c") simp_all
  with Set_capacity eq evict_if_necessary_for_insertion_seed [of ?c0]
  show ?thesis by simp
next
  case Clear
  then show ?thesis by (simp add: clear_def)
qed simp_all

lemma perform_all_seed:
  "rand_seed (process_rand (state_after ops c)) = rand_seed (process_rand c)"
proof (induction ops arbitrary: c)
  case Nil
  show ?case by (simp add: state_after_def)
next
  case (Cons op ops)
  have "state_after (op # ops) c = state_after ops (snd (perform op c))"
    by (simp add: state_after_def split: prod.splits)
  with Cons.IH [of "snd (perform op c)"] perform_seed [of op c] show ?case by simp
qed

lemma random_cache_first_eviction:
  "m_storage_policy
     (state_after [Put (1::nat) a, Put 2 b, Put 3 c] (random_policy_set_cache 2 now g))
   = (if rand_algorithm g (now mod 2 ^ 32) 0 mod 2 = 0
      then [(2, b), (3, c)] else [(1, a), (3, c)])"
proof -
  let ?r = "rand_algorithm g (now mod 4294967296) 0"
  have e: "now mod 2 ^ 32 = now mod 4294967296" by simp
  have "?r mod 2 = 0 \<or> ?r mod 2 = 1" by arith
  then show ?thesis
  proof
    assume z: "?r mod 2 = 0"
    then have "?r mod Suc (Suc 0) = 0" by (simp only: numeral_2_eq_2)
    with z show ?thesis
      unfolding e
      by (simp add: random_policy_set_cache_def run_defs cache_defs random_defs
            storage_defs fixed_defs)
  next
    assume o: "?r mod 2 = 1"
    then have "?r mod Suc (Suc 0) = Suc 0" by (simp only: numeral_2_eq_2 One_nat_def)
    with o show ?thesis
      unfolding e
      by (simp add: random_policy_set_cache_def run_defs cache_defs random_defs
            storage_defs fixed_defs)
  qed
qed

lemma random_cache_first_eviction_foreign:
  "m_storage_policy
     (state_after [Put 3 c]
        (foreign_rand_call
           (state_after [Put (1::nat) a, Put 2 b] (random_policy_set_cache 2 now g))))
   = (if rand_algorithm g (now mod 2 ^ 32) 1 mod 2 = 0
      then [(2, b), (3, c)] else [(1, a), (3, c)])"
proof -
  let ?r = "rand_algorithm g (now mod 4294967296) (Suc 0)"
  have e: "now mod 2 ^ 32 = now mod 4294967296" by simp
  have "?r mod 2 = 0 \<or> ?r mod 2 = 1" by arith
  then show ?thesis
  proof
    assume z: "?r mod 2 = 0"
    then have "?r mod Suc (Suc 0) = 0" by (simp only: numeral_2_eq_2)
    with z show ?thesis
      unfolding e
      by (simp add: random_policy_set_cache_def foreign_rand_call_def run_defs cache_defs random_defs
            storage_defs fixed_defs)
  next
    assume o: "?r mod 2 = 1"
    then have "?r mod Suc (Suc 0) = Suc 0" by (simp only: numeral_2_eq_2 One_nat_def)
    with o show ?thesis
      unfolding e
      by (simp add: random_policy_set_cache_def foreign_rand_call_def run_defs cache_defs random_defs
            storage_defs fixed_defs)
  qed
qed

text \<open>
  Claim C5 says that the RANDOM eviction policy owns a seedable generator, that it
  exposes a \<^verbatim>\<open>seed(value)\<close> method or a seed constructor, and that two runs of a RANDOM
  cache given the same seed and the same operations select the same victims.

  \<^verbatim>\<open>random_eviction_policy\<close> takes no seed.  Its constructor sets the seed of the
  process-wide C generator to the reading of the clock, and no member function of the
  cache sets the seed afterwards.  \<^verbatim>\<open>select_victim\<close> draws from that generator, which
  the policy does not own: on a cache of capacity 2, after \<^verbatim>\<open>put(1,a); put(2,b)\<close> the
  call \<^verbatim>\<open>put(3,c)\<close> evicts key 1 or key 2 according to the parity of the next value of
  \<^verbatim>\<open>std::rand()\<close>, which is the first value after the seed in a run where nothing else
  has called \<^verbatim>\<open>std::rand()\<close>, and the second value in a run where some other code of
  the process has called it once.  With the counting algorithm, two runs that are
  constructed at the same reading of the clock (the same seed) and perform the same
  operations end with different contents: keys 2, 3 in one, keys 1, 3 in the other.

  Other classes of the library do take a seed: \<^verbatim>\<open>eviction::random_policy::seed_random\<close>
  and \<^verbatim>\<open>storage::optimized_random_storage::set_seed\<close>, the latter on a generator that the
  object owns.
\<close>

theorem random_eviction_has_no_seed_of_its_own:
  "rand_seed (process_rand
      (new_policy_based_cache Random_eviction ac cp n now g :: ('k, 'v) policy_based_cache))
     = now mod 2 ^ 32
   \<and> rand_seed (process_rand (state_after ops (c :: ('k, 'v) policy_based_cache)))
     = rand_seed (process_rand c)
   \<and> m_storage_policy
       (state_after [Put (1::nat) a, Put 2 b, Put 3 d] (random_policy_set_cache 2 now g))
     = (if rand_algorithm g (now mod 2 ^ 32) 0 mod 2 = 0
        then [(2, b), (3, d)] else [(1, a), (3, d)])
   \<and> m_storage_policy
       (state_after [Put 3 d]
          (foreign_rand_call
             (state_after [Put (1::nat) a, Put 2 b] (random_policy_set_cache 2 now g))))
     = (if rand_algorithm g (now mod 2 ^ 32) 1 mod 2 = 0
        then [(2, b), (3, d)] else [(1, a), (3, d)])
   \<and> m_storage_policy
       (state_after [Put 3 ''c'']
          (state_after [Put (1::nat) ''a'', Put 2 ''b'']
             (random_policy_set_cache 2 0 counting_generator)))
     = [(2, ''b''), (3, ''c'')]
   \<and> m_storage_policy
       (state_after [Put 3 ''c'']
          (foreign_rand_call
             (state_after [Put (1::nat) ''a'', Put 2 ''b'']
                (random_policy_set_cache 2 0 counting_generator))))
     = [(1, ''a''), (3, ''c'')]"
proof -
  have "rand_seed (process_rand
      (new_policy_based_cache Random_eviction ac cp n now g :: ('k, 'v) policy_based_cache))
     = now mod 2 ^ 32"
    by (simp add: new_policy_based_cache_def random_defs)
  moreover note perform_all_seed [of ops c]
  moreover note random_cache_first_eviction [of a b d now g]
  moreover note random_cache_first_eviction_foreign [of d a b now g]
  moreover have "m_storage_policy
       (state_after [Put 3 ''c'']
          (state_after [Put (1::nat) ''a'', Put 2 ''b'']
             (random_policy_set_cache 2 0 counting_generator)))
     = [(2, ''b''), (3, ''c'')]"
    by (simp add: random_policy_set_cache_def counting_generator_def run_defs cache_defs
          random_defs storage_defs fixed_defs)
  moreover have "m_storage_policy
       (state_after [Put 3 ''c'']
          (foreign_rand_call
             (state_after [Put (1::nat) ''a'', Put 2 ''b'']
                (random_policy_set_cache 2 0 counting_generator))))
     = [(1, ''a''), (3, ''c'')]"
    by (simp add: random_policy_set_cache_def counting_generator_def foreign_rand_call_def
          run_defs cache_defs random_defs storage_defs fixed_defs)
  ultimately show ?thesis by blast
qed

section \<open>LFU: the buckets\<close>

lemma map_of_ordered_map_assign:
  "map_of (ordered_map_assign f v m) = (map_of m)(f \<mapsto> v)"
  by (induction m) (auto simp: fun_eq_iff)

lemma keys_ordered_map_assign:
  "set (map fst (ordered_map_assign f v m)) = insert f (set (map fst m))"
  by (induction f v m rule: ordered_map_assign.induct) (simp_all add: insert_commute)

lemma sorted_ordered_map_assign:
  "sorted_wrt (<) (map fst m) \<Longrightarrow> sorted_wrt (<) (map fst (ordered_map_assign f v m))"
proof (induction m)
  case Nil
  show ?case by simp
next
  case (Cons e m)
  obtain g w where e: "e = (g, w)" by (cases e)
  from Cons.prems have tl: "sorted_wrt (<) (map fst m)" and hd: "\<forall>x \<in> set (map fst m). g < x"
    by (simp_all add: e)
  show ?case
  proof (cases "f < g")
    case True
    with hd tl show ?thesis by (auto simp: e)
  next
    case False
    show ?thesis
    proof (cases "f = g")
      case True
      with hd tl show ?thesis by (simp add: e)
    next
      case ne: False
      with False have "g < f" by simp
      with hd have "\<forall>x \<in> set (map fst (ordered_map_assign f v m)). g < x"
        unfolding keys_ordered_map_assign by simp
      with Cons.IH [OF tl] False ne show ?thesis by (simp add: e)
    qed
  qed
qed

lemma map_of_ordered_map_erase:
  "map_of (ordered_map_erase f m) = (map_of m)(f := None)"
  by (induction m) (auto simp: ordered_map_erase_def fun_eq_iff)

lemma sorted_ordered_map_erase:
  "sorted_wrt (<) (map fst m) \<Longrightarrow> sorted_wrt (<) (map fst (ordered_map_erase f m))"
  by (induction m) (auto simp: ordered_map_erase_def)

lemma map_of_bucket_push_back:
  "map_of (bucket_push_back f k m) = (map_of m)(f \<mapsto> bucket_at m f @ [k])"
  by (simp add: bucket_push_back_def map_of_ordered_map_assign)

lemma sorted_bucket_push_back:
  "sorted_wrt (<) (map fst m) \<Longrightarrow> sorted_wrt (<) (map fst (bucket_push_back f k m))"
  by (simp add: bucket_push_back_def sorted_ordered_map_assign)

lemma map_of_bucket_erase_key:
  "map_of (bucket_erase_key f k m) =
     (if erase_last_node k (bucket_at m f) = [] then (map_of m)(f := None)
      else (map_of m)(f \<mapsto> erase_last_node k (bucket_at m f)))"
  by (simp add: bucket_erase_key_def Let_def map_of_ordered_map_assign map_of_ordered_map_erase)

lemma sorted_bucket_erase_key:
  "sorted_wrt (<) (map fst m) \<Longrightarrow> sorted_wrt (<) (map fst (bucket_erase_key f k m))"
  by (simp add: bucket_erase_key_def Let_def sorted_ordered_map_assign sorted_ordered_map_erase)

lemma bucket_at_push_back:
  "bucket_at (bucket_push_back f k m) g = (if g = f then bucket_at m f @ [k] else bucket_at m g)"
  by (simp add: bucket_at_def map_of_bucket_push_back)

lemma bucket_at_erase_key:
  "bucket_at (bucket_erase_key f k m) g =
     (if g = f then erase_last_node k (bucket_at m f) else bucket_at m g)"
  by (simp add: bucket_at_def map_of_bucket_erase_key)


lemma lfu_invariant_parts:
  assumes "lfu_invariant s a t"
  shows "distinct (map fst (lfu_key_frequency s))"
    and "sorted_wrt (<) (map fst (lfu_frequency_buckets s))"
    and "\<And>f b. map_of (lfu_frequency_buckets s) f = Some b \<Longrightarrow> b \<noteq> []"
    and "\<And>f b. map_of (lfu_frequency_buckets s) f = Some b
            \<Longrightarrow> sorted_wrt (\<lambda>x y. a x < a y) b"
    and "\<And>f b k. map_of (lfu_frequency_buckets s) f = Some b \<Longrightarrow> k \<in> set b
            \<Longrightarrow> lfu_frequency s k = Some f"
    and "\<And>f b k. map_of (lfu_frequency_buckets s) f = Some b \<Longrightarrow> k \<in> set b \<Longrightarrow> a k < t"
    and "\<And>k f. lfu_frequency s k = Some f \<Longrightarrow> k \<in> set (bucket_at (lfu_frequency_buckets s) f)"
    and "lfu_key_to_iterator s = fst ` set (lfu_key_frequency s)"
  using assms unfolding lfu_invariant_def by blast+

lemma lfu_invariantI:
  assumes "distinct (map fst (lfu_key_frequency s))"
    and "sorted_wrt (<) (map fst (lfu_frequency_buckets s))"
    and "\<And>f b. map_of (lfu_frequency_buckets s) f = Some b \<Longrightarrow> b \<noteq> []"
    and "\<And>f b. map_of (lfu_frequency_buckets s) f = Some b
            \<Longrightarrow> sorted_wrt (\<lambda>x y. a x < a y) b"
    and "\<And>f b k. map_of (lfu_frequency_buckets s) f = Some b \<Longrightarrow> k \<in> set b
            \<Longrightarrow> lfu_frequency s k = Some f"
    and "\<And>f b k. map_of (lfu_frequency_buckets s) f = Some b \<Longrightarrow> k \<in> set b \<Longrightarrow> a k < t"
    and "\<And>k f. lfu_frequency s k = Some f \<Longrightarrow> k \<in> set (bucket_at (lfu_frequency_buckets s) f)"
    and "lfu_key_to_iterator s = fst ` set (lfu_key_frequency s)"
  shows "lfu_invariant s a t"
  using assms unfolding lfu_invariant_def by blast

lemma bucket_at_Some: "map_of m f = Some b \<Longrightarrow> bucket_at m f = b"
  by (simp add: bucket_at_def)

lemma in_bucket_at:
  "k \<in> set (bucket_at m f) \<Longrightarrow> \<exists>b. map_of m f = Some b \<and> k \<in> set b"
  by (cases "map_of m f") (auto simp: bucket_at_def)

lemma sorted_wrt_arrival_upd:
  "sorted_wrt (\<lambda>x y. a x < a y) b \<Longrightarrow> k \<notin> set b
     \<Longrightarrow> sorted_wrt (\<lambda>x y. (a(k := t)) x < (a(k := t)) y) b"
  by (induction b) auto

lemma sorted_wrt_arrival_snoc:
  "sorted_wrt (\<lambda>x y. a x < a y) b \<Longrightarrow> k \<notin> set b \<Longrightarrow> \<forall>x \<in> set b. a x < t
     \<Longrightarrow> sorted_wrt (\<lambda>x y. (a(k := t)) x < (a(k := t)) y) (b @ [k])"
  by (induction b) auto

lemma lfu_invariant_on_insert:
  assumes inv: "lfu_invariant s a t" and new: "lfu_frequency s k = None"
  shows "lfu_invariant (lfu_on_insert k s) (a(k := t)) (Suc t)"
proof -
  note p = lfu_invariant_parts [OF inv]
  let ?B = "lfu_frequency_buckets s"
  have notin: "k \<notin> set b" if "map_of ?B f = Some b" for f b
    using p(5) [OF that] new by auto
  have B': "map_of (lfu_frequency_buckets (lfu_on_insert k s))
      = (map_of ?B)(1 \<mapsto> bucket_at ?B 1 @ [k])"
    by (simp add: lfu_on_insert_def map_of_bucket_push_back)
  have old1: "bucket_at ?B 1 = [] \<or> map_of ?B 1 = Some (bucket_at ?B 1)"
    by (simp add: bucket_at_def split: option.splits)
  show ?thesis
  proof (rule lfu_invariantI)
    show "distinct (map fst (lfu_key_frequency (lfu_on_insert k s)))"
      using p(1) by (simp add: lfu_on_insert_def distinct_update)
    show "sorted_wrt (<) (map fst (lfu_frequency_buckets (lfu_on_insert k s)))"
      using p(2) by (simp add: lfu_on_insert_def sorted_bucket_push_back)
    show "lfu_key_to_iterator (lfu_on_insert k s) = fst ` set (lfu_key_frequency (lfu_on_insert k s))"
      using p(8) by (simp add: lfu_on_insert_def dom_update)
  next
    fix f b assume "map_of (lfu_frequency_buckets (lfu_on_insert k s)) f = Some b"
    then show "b \<noteq> []"
      unfolding B' using p(3) by (auto split: if_splits)
  next
    fix f b assume b: "map_of (lfu_frequency_buckets (lfu_on_insert k s)) f = Some b"
    show "sorted_wrt (\<lambda>x y. (a(k := t)) x < (a(k := t)) y) b"
    proof (cases "f = 1")
      case True
      with b have eq: "b = bucket_at ?B 1 @ [k]" unfolding B' by simp
      have "sorted_wrt (\<lambda>x y. a x < a y) (bucket_at ?B 1)
        \<and> k \<notin> set (bucket_at ?B 1) \<and> (\<forall>x \<in> set (bucket_at ?B 1). a x < t)"
        using old1
      proof
        assume "bucket_at ?B 1 = []"
        then show ?thesis by simp
      next
        assume m: "map_of ?B 1 = Some (bucket_at ?B 1)"
        from p(4) [OF m] notin [OF m] p(6) [OF m] show ?thesis by blast
      qed
      then show ?thesis
        unfolding eq by (blast intro: sorted_wrt_arrival_snoc)
    next
      case False
      with b have b0: "map_of ?B f = Some b" unfolding B' by simp
      from p(4) [OF b0] notin [OF b0] show ?thesis by (rule sorted_wrt_arrival_upd)
    qed
  next
    fix f b j assume b: "map_of (lfu_frequency_buckets (lfu_on_insert k s)) f = Some b"
      and j: "j \<in> set b"
    have "lfu_frequency (lfu_on_insert k s) j = Some f \<and> (a(k := t)) j < Suc t"
    proof (cases "f = 1")
      case True
      with b have eq: "b = bucket_at ?B 1 @ [k]" unfolding B' by simp
      with j have "j = k \<or> j \<in> set (bucket_at ?B 1)" by auto
      then show ?thesis
      proof
        assume "j = k" with True show ?thesis by (simp add: lfu_frequency_on_insert)
      next
        assume "j \<in> set (bucket_at ?B 1)"
        then obtain b1 where b1: "map_of ?B 1 = Some b1" "j \<in> set b1"
          using in_bucket_at by fastforce
        from p(5) [OF b1] p(6) [OF b1] notin [OF b1(1)] b1(2) True
        show ?thesis by (auto simp: lfu_frequency_on_insert less_Suc_eq)
      qed
    next
      case False
      with b have b0: "map_of ?B f = Some b" unfolding B' by simp
      from p(5) [OF b0 j] p(6) [OF b0 j] notin [OF b0] j
      show ?thesis by (auto simp: lfu_frequency_on_insert less_Suc_eq)
    qed
    then show "lfu_frequency (lfu_on_insert k s) j = Some f" and "(a(k := t)) j < Suc t"
      by simp_all
  next
    fix j f assume "lfu_frequency (lfu_on_insert k s) j = Some f"
    then have "(j = k \<and> f = 1) \<or> (j \<noteq> k \<and> lfu_frequency s j = Some f)"
      by (auto simp: lfu_frequency_on_insert split: if_splits)
    then show "j \<in> set (bucket_at (lfu_frequency_buckets (lfu_on_insert k s)) f)"
      using p(7) by (auto simp: lfu_on_insert_def bucket_at_push_back)
  qed
qed


lemma sorted_wrt_arrival_distinct: "sorted_wrt (\<lambda>x y. (a x :: nat) < a y) b \<Longrightarrow> distinct b"
  by (induction b) auto

lemma sorted_wrt_remove1: "sorted_wrt P b \<Longrightarrow> sorted_wrt P (remove1 k b)"
proof (induction b)
  case Nil
  show ?case by simp
next
  case (Cons x b)
  then show ?case by (auto dest: notin_set_remove1)
qed

lemma lfu_invariant_later:
  assumes "lfu_invariant s a t"
  shows "lfu_invariant s a (Suc t)"
proof (rule lfu_invariantI)
  note p = lfu_invariant_parts [OF assms]
  fix f b k assume "map_of (lfu_frequency_buckets s) f = Some b" "k \<in> set b"
  from p(6) [OF this] show "a k < Suc t" by simp
qed (use lfu_invariant_parts [OF assms] in blast)+

lemma lfu_tracked_in_bucket:
  assumes inv: "lfu_invariant s a t" and tracked: "lfu_frequency s k = Some f"
  shows "\<exists>b. map_of (lfu_frequency_buckets s) f = Some b \<and> k \<in> set b \<and> distinct b"
    and "k \<in> lfu_key_to_iterator s"
proof -
  note p = lfu_invariant_parts [OF inv]
  from p(7) [OF tracked] obtain b where b: "map_of (lfu_frequency_buckets s) f = Some b" "k \<in> set b"
    using in_bucket_at by fastforce
  from p(4) [OF b(1)] have "distinct b" by (rule sorted_wrt_arrival_distinct)
  with b show "\<exists>b. map_of (lfu_frequency_buckets s) f = Some b \<and> k \<in> set b \<and> distinct b"
    by blast
  from tracked have "k \<in> fst ` set (lfu_key_frequency s)"
    unfolding lfu_frequency_def by (metis map_of_eq_None_iff option.distinct(1))
  with p(8) show "k \<in> lfu_key_to_iterator s" by simp
qed

lemma lfu_increment_frequency_tracked:
  assumes inv: "lfu_invariant s a t" and tracked: "lfu_frequency s k = Some f"
  shows "lfu_increment_frequency k s =
     s\<lparr>lfu_key_frequency := AList.update k (size_t_add f 1) (lfu_key_frequency s),
       lfu_frequency_buckets :=
         bucket_push_back (size_t_add f 1) k (bucket_erase_key f k (lfu_frequency_buckets s)),
       lfu_key_to_iterator := insert k (lfu_key_to_iterator s)\<rparr>"
  using lfu_tracked_in_bucket [OF inv tracked] tracked
  by (auto simp: lfu_increment_frequency_def lfu_frequency_def Let_def)

lemma lfu_remove_key_tracked:
  assumes inv: "lfu_invariant s a t" and tracked: "lfu_frequency s k = Some f"
  shows "lfu_remove_key k s =
     s\<lparr>lfu_key_frequency := AList.delete k (lfu_key_frequency s),
       lfu_frequency_buckets := bucket_erase_key f k (lfu_frequency_buckets s),
       lfu_key_to_iterator := lfu_key_to_iterator s - {k}\<rparr>"
  using lfu_tracked_in_bucket [OF inv tracked] tracked
  by (auto simp: lfu_remove_key_def lfu_frequency_def Let_def)

text \<open>The buckets after the key's node has left the bucket of its frequency.\<close>

lemma lfu_buckets_after_erase:
  assumes inv: "lfu_invariant s a t" and tracked: "lfu_frequency s k = Some f"
    and g: "map_of (bucket_erase_key f k (lfu_frequency_buckets s)) g = Some b"
  shows "b \<noteq> [] \<and> k \<notin> set b \<and> sorted_wrt (\<lambda>x y. a x < a y) b
     \<and> (\<forall>j \<in> set b. lfu_frequency s j = Some g \<and> a j < t)"
proof -
  note p = lfu_invariant_parts [OF inv]
  let ?B = "lfu_frequency_buckets s"
  from lfu_tracked_in_bucket(1) [OF inv tracked]
  obtain bf where bf: "map_of ?B f = Some bf" "k \<in> set bf" "distinct bf" by blast
  then have at: "bucket_at ?B f = bf" by (simp add: bucket_at_def)
  show ?thesis
  proof (cases "g = f")
    case True
    with g at have eq: "b = remove1 k bf" and ne: "b \<noteq> []"
      by (auto simp: map_of_bucket_erase_key erase_last_node_distinct [OF bf(3)]
            split: if_splits)
    from bf(3) have "k \<notin> set (remove1 k bf)" by simp
    moreover from p(4) [OF bf(1)] have "sorted_wrt (\<lambda>x y. a x < a y) (remove1 k bf)"
      by (rule sorted_wrt_remove1)
    moreover have "\<forall>j \<in> set (remove1 k bf). lfu_frequency s j = Some f \<and> a j < t"
      using p(5) [OF bf(1)] p(6) [OF bf(1)] by (meson notin_set_remove1)
    ultimately show ?thesis using eq ne True by simp
  next
    case False
    with g have g0: "map_of ?B g = Some b"
      by (auto simp: map_of_bucket_erase_key split: if_splits)
    have "k \<notin> set b"
    proof
      assume "k \<in> set b"
      from p(5) [OF g0 this] tracked False show False by simp
    qed
    with p(3) [OF g0] p(4) [OF g0] p(5) [OF g0] p(6) [OF g0] show ?thesis by blast
  qed
qed

lemma lfu_bucket_at_after_erase:
  assumes inv: "lfu_invariant s a t" and tracked: "lfu_frequency s k = Some f"
    and j: "lfu_frequency s j = Some g" and ne: "j \<noteq> k"
  shows "j \<in> set (bucket_at (bucket_erase_key f k (lfu_frequency_buckets s)) g)"
proof -
  note p = lfu_invariant_parts [OF inv]
  from p(7) [OF j] ne show ?thesis
    by (auto simp: bucket_at_erase_key in_set_erase_last_node)
qed

lemma lfu_invariant_remove_key:
  assumes inv: "lfu_invariant s a t"
  shows "lfu_invariant (lfu_remove_key k s) a (Suc t)"
proof (cases "lfu_frequency s k")
  case None
  then have "lfu_remove_key k s = s"
    by (simp add: lfu_remove_key_def lfu_frequency_def)
  with inv show ?thesis by (simp add: lfu_invariant_later)
next
  case (Some f)
  note p = lfu_invariant_parts [OF inv]
  note eq = lfu_remove_key_tracked [OF inv Some]
  note after = lfu_buckets_after_erase [OF inv Some]
  show ?thesis
  proof (rule lfu_invariantI)
    show "distinct (map fst (lfu_key_frequency (lfu_remove_key k s)))"
      using p(1) by (simp add: eq distinct_delete)
    show "sorted_wrt (<) (map fst (lfu_frequency_buckets (lfu_remove_key k s)))"
      using p(2) by (simp add: eq sorted_bucket_erase_key)
    show "lfu_key_to_iterator (lfu_remove_key k s) = fst ` set (lfu_key_frequency (lfu_remove_key k s))"
      using p(8) by (simp add: eq dom_map_of_conv_image_fst [symmetric] delete_conv')
  next
    fix g b assume "map_of (lfu_frequency_buckets (lfu_remove_key k s)) g = Some b"
    then have b: "map_of (bucket_erase_key f k (lfu_frequency_buckets s)) g = Some b"
      by (simp add: eq)
    from after [OF b] show "b \<noteq> []" and "sorted_wrt (\<lambda>x y. a x < a y) b" by simp_all
    fix j assume "j \<in> set b"
    with after [OF b] have "lfu_frequency s j = Some g" "a j < t" "j \<noteq> k" by auto
    then show "lfu_frequency (lfu_remove_key k s) j = Some g" and "a j < Suc t"
      by (simp_all add: lfu_frequency_remove_key)
  next
    fix j g assume "lfu_frequency (lfu_remove_key k s) j = Some g"
    then have "j \<noteq> k" "lfu_frequency s j = Some g"
      by (auto simp: lfu_frequency_remove_key split: if_splits)
    from lfu_bucket_at_after_erase [OF inv Some this(2) this(1)]
    show "j \<in> set (bucket_at (lfu_frequency_buckets (lfu_remove_key k s)) g)"
      by (simp add: eq)
  qed
qed


lemma lfu_invariant_increment:
  assumes inv: "lfu_invariant s a t" and tracked: "lfu_frequency s k = Some f"
  shows "lfu_invariant (lfu_increment_frequency k s) (a(k := t)) (Suc t)"
proof -
  note p = lfu_invariant_parts [OF inv]
  note eq = lfu_increment_frequency_tracked [OF inv tracked]
  note after = lfu_buckets_after_erase [OF inv tracked]
  let ?s' = "lfu_increment_frequency k s"
  let ?B1 = "bucket_erase_key f k (lfu_frequency_buckets s)"
  have B2: "map_of (lfu_frequency_buckets ?s') = (map_of ?B1)(size_t_add f 1 \<mapsto> bucket_at ?B1 (size_t_add f 1) @ [k])"
    by (simp add: eq map_of_bucket_push_back)
  have F': "lfu_frequency ?s' j = (if j = k then Some (size_t_add f 1) else lfu_frequency s j)" for j
    using tracked by (simp add: lfu_frequency_increment)
  have old: "sorted_wrt (\<lambda>x y. a x < a y) (bucket_at ?B1 (size_t_add f 1))
        \<and> k \<notin> set (bucket_at ?B1 (size_t_add f 1))
        \<and> (\<forall>x \<in> set (bucket_at ?B1 (size_t_add f 1)). lfu_frequency s x = Some (size_t_add f 1) \<and> a x < t)"
  proof (cases "map_of ?B1 (size_t_add f 1)")
    case None
    then show ?thesis by (simp add: bucket_at_def)
  next
    case (Some b1)
    from after [OF Some] Some show ?thesis by (simp add: bucket_at_def)
  qed
  show ?thesis
  proof (rule lfu_invariantI)
    show "distinct (map fst (lfu_key_frequency ?s'))"
      using p(1) by (simp add: eq distinct_update)
    show "sorted_wrt (<) (map fst (lfu_frequency_buckets ?s'))"
      using p(2) by (simp add: eq sorted_bucket_push_back sorted_bucket_erase_key)
    show "lfu_key_to_iterator ?s' = fst ` set (lfu_key_frequency ?s')"
      using p(8) by (simp add: eq dom_update)
  next
    fix g b assume b: "map_of (lfu_frequency_buckets ?s') g = Some b"
    have "b \<noteq> [] \<and> sorted_wrt (\<lambda>x y. (a(k := t)) x < (a(k := t)) y) b
        \<and> (\<forall>j \<in> set b. lfu_frequency ?s' j = Some g \<and> (a(k := t)) j < Suc t)"
    proof (cases "g = size_t_add f 1")
      case True
      with b have b_eq: "b = bucket_at ?B1 (size_t_add f 1) @ [k]" unfolding B2 by simp
      from old have "sorted_wrt (\<lambda>x y. (a(k := t)) x < (a(k := t)) y) (bucket_at ?B1 (size_t_add f 1) @ [k])"
        by (blast intro: sorted_wrt_arrival_snoc)
      moreover have "\<forall>j \<in> set (bucket_at ?B1 (size_t_add f 1) @ [k]).
          lfu_frequency ?s' j = Some (size_t_add f 1) \<and> (a(k := t)) j < Suc t"
        using old by (auto simp: F' less_Suc_eq)
      ultimately show ?thesis using True b_eq by simp
    next
      case False
      with b have b1: "map_of ?B1 g = Some b" unfolding B2 by simp
      from after [OF b1] have ne: "b \<noteq> []" and nk: "k \<notin> set b"
        and so: "sorted_wrt (\<lambda>x y. a x < a y) b"
        and ks: "\<forall>j \<in> set b. lfu_frequency s j = Some g \<and> a j < t"
        by simp_all
      from so nk have "sorted_wrt (\<lambda>x y. (a(k := t)) x < (a(k := t)) y) b"
        by (rule sorted_wrt_arrival_upd)
      moreover from ks nk have "\<forall>j \<in> set b. lfu_frequency ?s' j = Some g \<and> (a(k := t)) j < Suc t"
        by (auto simp: F' less_Suc_eq)
      ultimately show ?thesis using ne by simp
    qed
    then show "b \<noteq> []" and "sorted_wrt (\<lambda>x y. (a(k := t)) x < (a(k := t)) y) b"
      and "\<And>j. j \<in> set b \<Longrightarrow> lfu_frequency ?s' j = Some g"
      and "\<And>j. j \<in> set b \<Longrightarrow> (a(k := t)) j < Suc t"
      by simp_all
  next
    fix j g assume j: "lfu_frequency ?s' j = Some g"
    show "j \<in> set (bucket_at (lfu_frequency_buckets ?s') g)"
    proof (cases "j = k")
      case True
      with j have "g = size_t_add f 1" by (simp add: F')
      with True show ?thesis by (simp add: eq bucket_at_push_back)
    next
      case False
      with j have "lfu_frequency s j = Some g" by (simp add: F')
      from lfu_bucket_at_after_erase [OF inv tracked this False]
      show ?thesis by (auto simp: eq bucket_at_push_back)
    qed
  qed
qed

lemma lfu_invariant_promoted:
  assumes inv: "lfu_invariant s a t"
  shows "lfu_invariant (lfu_increment_frequency k s) (promoted s k t a) (Suc t)"
proof (cases "lfu_frequency s k")
  case None
  then have "lfu_increment_frequency k s = s"
    by (simp add: lfu_increment_frequency_def lfu_frequency_def)
  with None inv show ?thesis by (simp add: promoted_def lfu_invariant_later)
next
  case (Some f)
  from lfu_invariant_increment [OF inv Some] Some show ?thesis by (simp add: promoted_def)
qed

lemma lfu_invariant_fresh: "lfu_invariant new_lfu_eviction_policy a t"
  by (simp add: lfu_invariant_def new_lfu_eviction_policy_def lfu_frequency_def)

lemma lfu_invariant_clear: "lfu_invariant (lfu_clear s) a t"
  by (simp add: lfu_invariant_def lfu_clear_def lfu_frequency_def)

lemma lfu_reachable_invariant: "lfu_reachable s a t \<Longrightarrow> lfu_invariant s a t"
proof (induction rule: lfu_reachable.induct)
  case fresh
  show ?case by (rule lfu_invariant_fresh)
next
  case (inserted s arrival t k)
  from inserted.IH inserted.hyps(2) show ?case by (rule lfu_invariant_on_insert)
next
  case (accessed s arrival t k)
  from lfu_invariant_promoted [OF accessed.IH] show ?case by (simp add: lfu_on_access_def)
next
  case (updated s arrival t k)
  from lfu_invariant_promoted [OF updated.IH] show ?case by (simp add: lfu_on_update_def)
next
  case (removed s arrival t k)
  from removed.IH show ?case by (rule lfu_invariant_remove_key)
next
  case (cleared s arrival t)
  show ?case by (rule lfu_invariant_clear)
qed


lemma lfu_invariant_victim:
  assumes inv: "lfu_invariant s arrival t" and tracked: "lfu_key_frequency s \<noteq> []"
  shows "\<exists>f victim bucket rest.
           lfu_frequency_buckets s = (f, victim # bucket) # rest
         \<and> lfu_select_victim s = Returns victim s
         \<and> lfu_frequency s victim = Some f
         \<and> (\<forall>k g. lfu_frequency s k = Some g \<longrightarrow> f \<le> g)
         \<and> (\<forall>k. lfu_frequency s k = Some f \<longrightarrow> k \<in> set (victim # bucket))
         \<and> (\<forall>k \<in> set bucket. lfu_frequency s k = Some f)
         \<and> sorted_wrt (\<lambda>x y. arrival x < arrival y) (victim # bucket)
         \<and> (\<forall>k. lfu_frequency s k = Some f \<longrightarrow> k = victim \<or> arrival victim < arrival k)"
proof -
  note p = lfu_invariant_parts [OF inv]
  let ?B = "lfu_frequency_buckets s"
  have "\<exists>k0 f0. lfu_frequency s k0 = Some f0"
  proof (cases "lfu_key_frequency s")
    case Nil
    with tracked show ?thesis by simp
  next
    case (Cons e es)
    then have "lfu_frequency s (fst e) = Some (snd e)"
      by (cases e) (simp add: lfu_frequency_def)
    then show ?thesis by blast
  qed
  then obtain k0 f0 where "lfu_frequency s k0 = Some f0" by blast
  from p(7) [OF this] have "?B \<noteq> []"
    by (auto simp: bucket_at_def)
  then obtain f b rest where B: "?B = (f, b) # rest"
    by (cases ?B) auto
  then have fb: "map_of ?B f = Some b" by simp
  from p(3) [OF fb] obtain victim bucket where b: "b = victim # bucket"
    by (cases b) auto
  have sel: "lfu_select_victim s = Returns victim s"
    by (simp add: lfu_select_victim_def B b)
  have fv: "lfu_frequency s victim = Some f"
    using p(5) [OF fb] b by simp
  have least: "f \<le> g" if "lfu_frequency s k = Some g" for k g
  proof -
    from p(7) [OF that] obtain bg where "map_of ?B g = Some bg"
      using in_bucket_at by fastforce
    then have "(g, bg) \<in> set ?B" by (rule map_of_SomeD)
    then have "g \<in> set (map fst ?B)" by force
    with p(2) show ?thesis
      by (auto simp: B)
  qed
  have inb: "k \<in> set (victim # bucket)" if "lfu_frequency s k = Some f" for k
    using p(7) [OF that] fb b by (simp add: bucket_at_def)
  have keys: "\<forall>k \<in> set bucket. lfu_frequency s k = Some f"
    using p(5) [OF fb] b by simp
  have sorted: "sorted_wrt (\<lambda>x y. arrival x < arrival y) (victim # bucket)"
    using p(4) [OF fb] b by simp
  have oldest: "k = victim \<or> arrival victim < arrival k" if "lfu_frequency s k = Some f" for k
    using inb [OF that] sorted by auto
  from B b sel fv least inb keys sorted oldest show ?thesis by blast
qed


text \<open>
  Claim C7.  In every state that the LFU policy reaches under the calls of the cache,
  with at least one tracked key, \<^verbatim>\<open>select_victim\<close> returns the head of the first
  bucket of \<^verbatim>\<open>m_frequency_buckets\<close>, which is the bucket of the lowest frequency that
  any tracked key has.  That bucket holds exactly the tracked keys of this frequency, in
  the order in which they were inserted into or promoted to it: the head is the one
  whose insertion or promotion is the oldest, so among all keys of minimal frequency the
  victim is the key inserted or promoted longest ago.
\<close>

theorem lfu_victim_is_oldest_of_least_frequent:
  assumes reach: "lfu_reachable s arrival t" and tracked: "lfu_key_frequency s \<noteq> []"
  shows "\<exists>f victim bucket rest.
           lfu_frequency_buckets s = (f, victim # bucket) # rest
         \<and> lfu_select_victim s = Returns victim s
         \<and> lfu_frequency s victim = Some f
         \<and> (\<forall>k g. lfu_frequency s k = Some g \<longrightarrow> f \<le> g)
         \<and> (\<forall>k. lfu_frequency s k = Some f \<longrightarrow> k \<in> set (victim # bucket))
         \<and> (\<forall>k \<in> set bucket. lfu_frequency s k = Some f)
         \<and> sorted_wrt (\<lambda>x y. arrival x < arrival y) (victim # bucket)
         \<and> (\<forall>k. lfu_frequency s k = Some f \<longrightarrow> k = victim \<or> arrival victim < arrival k)"
  using lfu_invariant_victim [OF lfu_reachable_invariant [OF reach] tracked] .

text \<open>
  An instance: after \<^verbatim>\<open>on_insert(1); on_insert(2); on_insert(3); on_access(1)\<close> the
  buckets are \<open>1 \<mapsto> [2, 3]\<close> and \<open>2 \<mapsto> [1]\<close>, and the victim is key 2.
\<close>

theorem lfu_victim_is_oldest_of_least_frequent_witness:
  "lfu_reachable
     (lfu_on_access 1 (lfu_on_insert 3 (lfu_on_insert 2
        (lfu_on_insert (1::nat) new_lfu_eviction_policy))))
     (promoted (lfu_on_insert 3 (lfu_on_insert 2 (lfu_on_insert (1::nat) new_lfu_eviction_policy)))
        1 (Suc (Suc (Suc 0)))
        ((\<lambda>k. 0)(1 := 0, 2 := Suc 0, 3 := Suc (Suc 0))))
     (Suc (Suc (Suc (Suc 0))))
   \<and> lfu_key_frequency
        (lfu_on_access 1 (lfu_on_insert 3 (lfu_on_insert 2
           (lfu_on_insert (1::nat) new_lfu_eviction_policy)))) \<noteq> []
   \<and> lfu_frequency_buckets
        (lfu_on_access 1 (lfu_on_insert 3 (lfu_on_insert 2
           (lfu_on_insert (1::nat) new_lfu_eviction_policy))))
       = [(1, [2, 3]), (2, [1])]
   \<and> lfu_select_victim
        (lfu_on_access 1 (lfu_on_insert 3 (lfu_on_insert 2
           (lfu_on_insert (1::nat) new_lfu_eviction_policy))))
       = Returns 2
          (lfu_on_access 1 (lfu_on_insert 3 (lfu_on_insert 2
             (lfu_on_insert (1::nat) new_lfu_eviction_policy))))"
proof -
  let ?s1 = "lfu_on_insert (1::nat) new_lfu_eviction_policy"
  let ?s2 = "lfu_on_insert 2 ?s1"
  let ?s3 = "lfu_on_insert 3 ?s2"
  let ?s4 = "lfu_on_access 1 ?s3"
  let ?a3 = "(\<lambda>k::nat. 0::nat)(1 := 0, 2 := Suc 0, 3 := Suc (Suc 0))"
  have r0: "lfu_reachable (new_lfu_eviction_policy :: nat lfu_eviction_policy) (\<lambda>k. 0) 0"
    by (rule lfu_reachable.fresh)
  have "lfu_frequency (new_lfu_eviction_policy :: nat lfu_eviction_policy) 1 = None"
    by (simp add: lfu_frequency_def new_lfu_eviction_policy_def)
  from lfu_reachable.inserted [OF r0 this]
  have r1: "lfu_reachable ?s1 ((\<lambda>k. 0)(1 := 0)) (Suc 0)" .
  have "lfu_frequency ?s1 2 = None"
    by (simp add: lfu_frequency_def lfu_on_insert_def new_lfu_eviction_policy_def)
  from lfu_reachable.inserted [OF r1 this]
  have r2: "lfu_reachable ?s2 ((\<lambda>k. 0)(1 := 0, 2 := Suc 0)) (Suc (Suc 0))" .
  have "lfu_frequency ?s2 3 = None"
    by (simp add: lfu_frequency_def lfu_on_insert_def new_lfu_eviction_policy_def)
  from lfu_reachable.inserted [OF r2 this]
  have r3: "lfu_reachable ?s3 ?a3 (Suc (Suc (Suc 0)))" .
  from lfu_reachable.accessed [OF r3]
  have r4: "lfu_reachable ?s4 (promoted ?s3 1 (Suc (Suc (Suc 0))) ?a3) (Suc (Suc (Suc (Suc 0))))" .
  have buckets: "lfu_frequency_buckets ?s4 = [(1, [2, 3]), (2, [1])]"
    by (simp add: lfu_defs bucket_defs size_t_add_1_1)
  have tracked: "lfu_key_frequency ?s4 \<noteq> []"
    by (simp add: lfu_defs bucket_defs size_t_add_1_1)
  from lfu_victim_is_oldest_of_least_frequent [OF r4 tracked]
  obtain f victim bucket rest where
    "lfu_frequency_buckets ?s4 = (f, victim # bucket) # rest"
    and sel: "lfu_select_victim ?s4 = Returns victim ?s4"
    by blast
  with buckets have "victim = 2" by simp
  with sel have "lfu_select_victim ?s4 = Returns 2 ?s4" by simp
  with r4 tracked buckets show ?thesis by blast
qed

section \<open>Consistency of the policies with storage\<close>

text \<open>
  Every state that the cache reaches through its public operations satisfies
  \<open>cache_invariant\<close>: the eviction policy tracks exactly the stored keys, each tracked
  key has exactly one node in the policy's lists (so the node a handle designates is
  the only occurrence of its key), and \<^verbatim>\<open>select_victim\<close> on a non-empty cache returns a
  stored key.  With the fixed capacity policy the cache never holds more than
  \<open>max capacity 1\<close> entries.
\<close>

subsection \<open>LRU and MRU\<close>

lemma lru_invariant_new: "lru_invariant new_lru_eviction_policy {}"
  by (simp add: lru_invariant_def new_lru_eviction_policy_def)

lemma lru_invariant_on_insert:
  "lru_invariant s K \<Longrightarrow> k \<notin> K \<Longrightarrow> lru_invariant (lru_on_insert k s) (insert k K)"
  by (auto simp: lru_invariant_def lru_on_insert_def)

lemma lru_invariant_on_access:
  "lru_invariant s K \<Longrightarrow> lru_invariant (lru_on_access k s) K"
  by (auto simp: lru_invariant_def lru_on_access_def)

lemma lru_invariant_remove_key:
  "lru_invariant s K \<Longrightarrow> lru_invariant (lru_remove_key k s) (K - {k})"
  by (auto simp: lru_invariant_def lru_remove_key_def)

lemma lru_invariant_clear: "lru_invariant (lru_clear s) {}"
  by (simp add: lru_invariant_def lru_clear_def)

lemma lru_select_victim_tracked:
  assumes "lru_invariant s K" and "K \<noteq> {}"
  shows "\<exists>k. lru_select_victim s = Returns k s \<and> k \<in> K"
proof -
  from assms have "lru_access_list s \<noteq> []" by (auto simp: lru_invariant_def)
  then obtain xs x where "lru_access_list s = xs @ [x]"
    by (metis rev_exhaust)
  with assms show ?thesis
    by (auto simp: lru_select_victim_def lru_invariant_def)
qed

lemma mru_invariant_new: "mru_invariant new_mru_eviction_policy {}"
  by (simp add: mru_invariant_def new_mru_eviction_policy_def)

lemma mru_invariant_on_insert:
  "mru_invariant s K \<Longrightarrow> k \<notin> K \<Longrightarrow> mru_invariant (mru_on_insert k s) (insert k K)"
  by (auto simp: mru_invariant_def mru_on_insert_def)

lemma mru_invariant_on_access:
  "mru_invariant s K \<Longrightarrow> mru_invariant (mru_on_access k s) K"
  by (auto simp: mru_invariant_def mru_on_access_def)

lemma mru_invariant_remove_key:
  "mru_invariant s K \<Longrightarrow> mru_invariant (mru_remove_key k s) (K - {k})"
  by (auto simp: mru_invariant_def mru_remove_key_def)

lemma mru_invariant_clear: "mru_invariant (mru_clear s) {}"
  by (simp add: mru_invariant_def mru_clear_def)

lemma mru_select_victim_tracked:
  assumes "mru_invariant s K" and "K \<noteq> {}"
  shows "\<exists>k. mru_select_victim s = Returns k s \<and> k \<in> K"
proof -
  from assms obtain x xs where "mru_access_list s = x # xs"
    by (cases "mru_access_list s") (auto simp: mru_invariant_def)
  with assms show ?thesis
    by (auto simp: mru_select_victim_def mru_invariant_def)
qed

subsection \<open>FIFO\<close>

lemma fifo_invariant_new: "fifo_invariant new_fifo_eviction_policy {}"
  by (simp add: fifo_invariant_def live_keys_def new_fifo_eviction_policy_def)

lemma live_keys_update:
  "live_keys (AList.update j b ex) = (if b then insert j (live_keys ex) else live_keys ex - {j})"
  by (auto simp: live_keys_def update_conv')

lemma fifo_invariant_live:
  "fifo_invariant s K \<longleftrightarrow>
     distinct (map fst (fifo_key_exists s)) \<and> live_keys (fifo_key_exists s) = K
     \<and> K \<subseteq> set (fifo_insertion_queue s)"
  by (simp add: fifo_invariant_def)

lemma fifo_invariant_on_insert:
  "fifo_invariant s K \<Longrightarrow> fifo_invariant (fifo_on_insert k s) (insert k K)"
  unfolding fifo_invariant_live
  by (auto simp: fifo_on_insert_def distinct_update live_keys_update)

lemma fifo_invariant_remove_key:
  assumes "fifo_invariant s K"
  shows "fifo_invariant (fifo_remove_key k s) (K - {k})"
proof (cases "map_of (fifo_key_exists s) k")
  case None
  then have "k \<notin> live_keys (fifo_key_exists s)" by (simp add: live_keys_def)
  with assms None show ?thesis
    unfolding fifo_invariant_live by (auto simp: fifo_remove_key_def)
next
  case (Some b)
  with assms show ?thesis
    unfolding fifo_invariant_live
    by (auto simp: fifo_remove_key_def distinct_update live_keys_update)
qed

lemma fifo_invariant_clear: "fifo_invariant (fifo_clear s) {}"
  by (simp add: fifo_invariant_def live_keys_def fifo_clear_def)

lemma fifo_pop_until_live_Some:
  assumes "\<exists>k \<in> set queue. map_of ex k = Some True"
  shows "\<exists>candidate rest. fifo_pop_until_live ex queue = (Some candidate, rest)
           \<and> map_of ex candidate = Some True
           \<and> (\<forall>k \<in> set queue. map_of ex k = Some True \<longrightarrow> k = candidate \<or> k \<in> set rest)"
  using assms
proof (induction queue)
  case Nil
  then show ?case by simp
next
  case (Cons c queue)
  show ?case
  proof (cases "map_of ex c = Some True")
    case True
    then show ?thesis by auto
  next
    case False
    with Cons.prems have "\<exists>k \<in> set queue. map_of ex k = Some True" by auto
    from Cons.IH [OF this] False show ?thesis by auto
  qed
qed

lemma fifo_select_victim_tracked:
  assumes inv: "fifo_invariant s K" and ne: "K \<noteq> {}"
  shows "\<exists>k s'. fifo_select_victim s = Returns k s' \<and> k \<in> K
           \<and> fifo_invariant (fifo_remove_key k s') (K - {k})"
proof -
  from inv ne have "\<exists>k \<in> set (fifo_insertion_queue s). map_of (fifo_key_exists s) k = Some True"
    unfolding fifo_invariant_live live_keys_def by blast
  from fifo_pop_until_live_Some [OF this]
  obtain candidate rest where
    pop: "fifo_pop_until_live (fifo_key_exists s) (fifo_insertion_queue s) = (Some candidate, rest)"
    and live: "map_of (fifo_key_exists s) candidate = Some True"
    and rest: "\<forall>k \<in> set (fifo_insertion_queue s).
        map_of (fifo_key_exists s) k = Some True \<longrightarrow> k = candidate \<or> k \<in> set rest"
    by blast
  let ?s' = "s\<lparr>fifo_insertion_queue := rest\<rparr>"
  have sel: "fifo_select_victim s = Returns candidate ?s'"
    by (simp add: fifo_select_victim_def pop)
  from inv live have inK: "candidate \<in> K"
    unfolding fifo_invariant_live live_keys_def by blast
  have "K - {candidate} \<subseteq> set rest"
    using inv rest unfolding fifo_invariant_live live_keys_def by blast
  have "fifo_invariant (fifo_remove_key candidate ?s') (K - {candidate})"
    using inv live \<open>K - {candidate} \<subseteq> set rest\<close>
    unfolding fifo_invariant_live
    by (auto simp: fifo_remove_key_def distinct_update live_keys_update)
  with sel inK show ?thesis by blast
qed


subsection \<open>RANDOM\<close>

lemma random_invariant_new:
  "random_invariant (fst (new_random_eviction_policy now g)) {}"
  by (simp add: random_invariant_def random_defs)

lemma random_invariant_clear: "random_invariant (random_clear s) {}"
  by (simp add: random_invariant_def random_clear_def)

lemma random_invariant_on_insert:
  assumes inv: "random_invariant s K" and new: "k \<notin> K"
  shows "random_invariant (random_on_insert k s) (insert k K)"
proof -
  let ?keys = "random_keys s"
  from inv have d: "distinct ?keys" and K: "set ?keys = K"
    and ix: "\<And>j i. random_key_to_index s j = Some i \<longleftrightarrow> i < length ?keys \<and> ?keys ! i = j"
    by (simp_all add: random_invariant_def)
  have "((random_key_to_index s)(k \<mapsto> length ?keys)) j = Some i
          \<longleftrightarrow> i < length (?keys @ [k]) \<and> (?keys @ [k]) ! i = j" for j i
  proof (cases "j = k")
    case True
    have "i < length ?keys \<Longrightarrow> ?keys ! i \<noteq> k"
      using new K nth_mem by fastforce
    with True show ?thesis
      by (auto simp: nth_append less_Suc_eq)
  next
    case False
    then show ?thesis
      by (auto simp: ix nth_append less_Suc_eq)
  qed
  with d K new show ?thesis
    by (simp add: random_invariant_def random_on_insert_def Let_def)
qed

lemma random_select_victim_tracked:
  assumes "random_invariant s K" and "K \<noteq> {}"
  shows "\<exists>k g'. random_select_victim s g = Returns k (s, g') \<and> k \<in> K"
proof -
  from assms have ne: "random_keys s \<noteq> []" and K: "set (random_keys s) = K"
    by (auto simp: random_invariant_def)
  then have "random_keys s ! (fst (std_rand g) mod length (random_keys s)) \<in> K"
    by (metis length_greater_0_conv mod_less_divisor nth_mem)
  with ne show ?thesis
    by (auto simp: random_select_victim_def Let_def split: prod.splits)
qed

lemma random_invariant_remove_key:
  assumes inv: "random_invariant s K"
  shows "random_invariant (random_remove_key k s) (K - {k})"
proof (cases "random_key_to_index s k")
  case None
  let ?keys = "random_keys s"
  from inv have K: "set ?keys = K"
    and ix: "\<And>j i. random_key_to_index s j = Some i \<longleftrightarrow> i < length ?keys \<and> ?keys ! i = j"
    by (simp_all add: random_invariant_def)
  have "k \<notin> K"
  proof
    assume "k \<in> K"
    with K obtain i where "i < length ?keys" "?keys ! i = k"
      by (metis in_set_conv_nth)
    with ix [of k i] None show False by simp
  qed
  with inv None show ?thesis by (simp add: random_remove_key_def)
next
  case (Some i)
  let ?keys = "random_keys s"
  let ?n = "length ?keys - 1"
  from inv have d: "distinct ?keys" and K: "set ?keys = K"
    and ix: "\<And>j i. random_key_to_index s j = Some i \<longleftrightarrow> i < length ?keys \<and> ?keys ! i = j"
    by (simp_all add: random_invariant_def)
  from ix [of k i] Some have i: "i < length ?keys" "?keys ! i = k" by simp_all
  then have len: "length ?keys = Suc ?n" and in': "i \<le> ?n" by simp_all
  define keys' where "keys' = butlast (if i \<noteq> ?n then ?keys[i := ?keys ! ?n] else ?keys)"
  define index' where "index' =
     ((if i \<noteq> ?n then (random_key_to_index s)(?keys ! ?n \<mapsto> i) else random_key_to_index s))
       (k := None)"
  have eq: "random_remove_key k s = s\<lparr>random_keys := keys', random_key_to_index := index'\<rparr>"
    by (simp add: random_remove_key_def Some Let_def keys'_def index'_def)
  have l': "length keys' = ?n" by (simp add: keys'_def)
  have nth': "keys' ! j = (if j = i then ?keys ! ?n else ?keys ! j)" if "j < ?n" for j
    using that i by (auto simp: keys'_def nth_butlast)
  have neq: "?keys ! a \<noteq> ?keys ! b" if "a < length ?keys" "b < length ?keys" "a \<noteq> b" for a b
    using that d by (simp add: nth_eq_iff_index_eq)
  have d': "distinct keys'"
    unfolding distinct_conv_nth l'
  proof (intro allI impI)
    fix a b assume ab: "a < ?n" "b < ?n" "a \<noteq> b"
    then show "keys' ! a \<noteq> keys' ! b"
      using neq [of a b] neq [of ?n b] neq [of a ?n] len by (auto simp: nth')
  qed
  have set': "set keys' = K - {k}"
  proof (intro set_eqI iffI)
    fix x assume "x \<in> set keys'"
    then obtain j where j: "j < ?n" "keys' ! j = x"
      by (metis in_set_conv_nth l')
    show "x \<in> K - {k}"
    proof (cases "j = i")
      case True
      with j have x: "x = ?keys ! ?n" by (simp add: nth')
      from True j have "i \<noteq> ?n" by simp
      from neq [OF _ i(1) this [symmetric]] len i(2) x K show ?thesis
        by (metis DiffI lessI nth_mem singletonD)
    next
      case False
      with j have x: "x = ?keys ! j" by (simp add: nth')
      from neq [OF _ i(1) False] j(1) len i(2) x K show ?thesis
        by (metis DiffI less_SucI nth_mem singletonD)
    qed
  next
    fix x assume "x \<in> K - {k}"
    with K obtain j where j: "j < length ?keys" "?keys ! j = x" "x \<noteq> k"
      by (metis DiffD1 DiffD2 in_set_conv_nth singletonI)
    with i have ji: "j \<noteq> i" by auto
    show "x \<in> set keys'"
    proof (cases "j = ?n")
      case True
      with ji in' have "i < ?n" by simp
      then have "keys' ! i = ?keys ! ?n" by (simp add: nth')
      with True j \<open>i < ?n\<close> l' show ?thesis by (metis nth_mem)
    next
      case False
      with j(1) len have "j < ?n" by simp
      then have "keys' ! j = ?keys ! j" using ji by (simp add: nth')
      with j \<open>j < ?n\<close> l' show ?thesis by (metis nth_mem)
    qed
  qed
  have same: "(j < length ?keys \<and> ?keys ! j = x) \<longleftrightarrow> (j < ?n \<and> keys' ! j = x)"
    if xk: "x \<noteq> k" and xl: "x \<noteq> ?keys ! ?n \<or> i = ?n" for x j
  proof
    assume a: "j < length ?keys \<and> ?keys ! j = x"
    with xk i(2) have ji: "j \<noteq> i" by auto
    from a xl xk i(2) have "j \<noteq> ?n" by auto
    with a len have jn: "j < ?n" by simp
    with ji a show "j < ?n \<and> keys' ! j = x" by (simp add: nth')
  next
    assume a: "j < ?n \<and> keys' ! j = x"
    have ji: "j \<noteq> i"
    proof
      assume "j = i"
      with a have "i < ?n" and "keys' ! i = x" by simp_all
      with nth' [of i] have "x = ?keys ! ?n" and "i \<noteq> ?n" by simp_all
      with xl show False by simp
    qed
    from a have "j < ?n" and "keys' ! j = x" by simp_all
    with nth' [of j] ji len show "j < length ?keys \<and> ?keys ! j = x" by simp
  qed
  have ix': "index' x = Some j \<longleftrightarrow> j < length keys' \<and> keys' ! j = x" for x j
  proof (cases "x = k")
    case True
    have "keys' ! j \<noteq> k" if "j < ?n"
      using d' set' that l' by (metis DiffD2 nth_mem singletonI)
    with True show ?thesis by (auto simp: index'_def l')
  next
    case False
    show ?thesis
    proof (cases "x \<noteq> ?keys ! ?n \<or> i = ?n")
      case True
      then have "index' x = random_key_to_index s x"
        using False by (auto simp: index'_def)
      with same [OF False True, of j] show ?thesis by (simp add: ix l')
    next
      case nl: False
      then have xl: "x = ?keys ! ?n" and ne: "i \<noteq> ?n" by simp_all
      with in' have "i < ?n" by simp
      from xl ne have "index' x = Some i" using False by (simp add: index'_def)
      moreover have "(j < ?n \<and> keys' ! j = x) \<longleftrightarrow> j = i"
      proof
        assume a: "j < ?n \<and> keys' ! j = x"
        show "j = i"
        proof (rule ccontr)
          assume "j \<noteq> i"
          with a nth' [of j] have "?keys ! j = x" by simp
          moreover from a len have "j < length ?keys" "?n < length ?keys" "j \<noteq> ?n" by simp_all
          ultimately show False using xl neq [of j ?n] by simp
        qed
      next
        assume "j = i"
        with \<open>i < ?n\<close> nth' [of i] xl show "j < ?n \<and> keys' ! j = x" by simp
      qed
      ultimately show ?thesis by (auto simp: l')
    qed
  qed
  from d' set' ix' show ?thesis
    by (simp add: eq random_invariant_def)
qed


subsection \<open>LFU and MFU\<close>

lemma lfu_tracked_iff: "k \<in> fst ` set (lfu_key_frequency s) \<longleftrightarrow> lfu_frequency s k \<noteq> None"
  by (simp add: lfu_frequency_def map_of_eq_None_iff)

lemma lfu_keys_on_insert:
  "fst ` set (lfu_key_frequency (lfu_on_insert k s)) = insert k (fst ` set (lfu_key_frequency s))"
  by (simp add: lfu_on_insert_def dom_update)

lemma lfu_keys_increment:
  "fst ` set (lfu_key_frequency (lfu_increment_frequency k s)) = fst ` set (lfu_key_frequency s)"
proof (rule set_eqI)
  fix x
  show "x \<in> fst ` set (lfu_key_frequency (lfu_increment_frequency k s))
      \<longleftrightarrow> x \<in> fst ` set (lfu_key_frequency s)"
    unfolding lfu_tracked_iff by (simp add: lfu_frequency_increment)
qed

lemma lfu_keys_remove_key:
  "fst ` set (lfu_key_frequency (lfu_remove_key k s)) = fst ` set (lfu_key_frequency s) - {k}"
proof (rule set_eqI)
  fix x
  have "x \<in> fst ` set (lfu_key_frequency (lfu_remove_key k s))
      \<longleftrightarrow> x \<in> fst ` set (lfu_key_frequency s) \<and> x \<noteq> k"
    unfolding lfu_tracked_iff by (simp add: lfu_frequency_remove_key)
  then show "x \<in> fst ` set (lfu_key_frequency (lfu_remove_key k s))
      \<longleftrightarrow> x \<in> fst ` set (lfu_key_frequency s) - {k}"
    by simp
qed

lemma lfu_invariant_last_bucket:
  assumes inv: "lfu_invariant s a t" and tracked: "lfu_key_frequency s \<noteq> []"
  shows "\<exists>f victim bucket front.
           lfu_frequency_buckets s = front @ [(f, victim # bucket)]
         \<and> lfu_frequency s victim = Some f"
proof -
  note p = lfu_invariant_parts [OF inv]
  let ?B = "lfu_frequency_buckets s"
  have "\<exists>k0 f0. lfu_frequency s k0 = Some f0"
  proof (cases "lfu_key_frequency s")
    case Nil
    with tracked show ?thesis by simp
  next
    case (Cons e es)
    then have "lfu_frequency s (fst e) = Some (snd e)"
      by (cases e) (simp add: lfu_frequency_def)
    then show ?thesis by blast
  qed
  then obtain k0 f0 where "lfu_frequency s k0 = Some f0" by blast
  from p(7) [OF this] have "?B \<noteq> []"
    by (auto simp: bucket_at_def)
  then obtain front e where B: "?B = front @ [e]"
    by (metis rev_exhaust)
  obtain f b where e: "e = (f, b)" by (cases e)
  from p(2) have "distinct (map fst ?B)"
    by (simp add: strict_sorted_iff)
  with B e have "map_of front f = None"
    by (simp add: map_of_eq_None_iff)
  with B e have fb: "map_of ?B f = Some b"
    by (simp add: map_add_def)
  from p(3) [OF fb] obtain victim bucket where b: "b = victim # bucket"
    by (cases b) auto
  from p(5) [OF fb] b have "lfu_frequency s victim = Some f" by simp
  with B e b show ?thesis by blast
qed


lemma lfu_select_victim_tracked:
  assumes inv: "lfu_invariant s a t" and ne: "fst ` set (lfu_key_frequency s) \<noteq> {}"
  shows "\<exists>k. lfu_select_victim s = Returns k s \<and> k \<in> fst ` set (lfu_key_frequency s)"
proof -
  from ne have "lfu_key_frequency s \<noteq> []" by auto
  from lfu_invariant_victim [OF inv this]
  obtain f victim where "lfu_select_victim s = Returns victim s" "lfu_frequency s victim = Some f"
    by blast
  then show ?thesis by (auto simp: lfu_tracked_iff)
qed

lemma mfu_as_lfu_simps:
  "mfu_as_lfu new_mfu_eviction_policy = new_lfu_eviction_policy"
  "mfu_as_lfu (mfu_on_insert k s) = lfu_on_insert k (mfu_as_lfu s)"
  "mfu_as_lfu (mfu_increment_frequency k s) = lfu_increment_frequency k (mfu_as_lfu s)"
  "mfu_as_lfu (mfu_remove_key k s) = lfu_remove_key k (mfu_as_lfu s)"
  "mfu_as_lfu (mfu_clear s) = lfu_clear (mfu_as_lfu s)"
  "lfu_key_frequency (mfu_as_lfu s) = mfu_key_frequency s"
  "lfu_frequency_buckets (mfu_as_lfu s) = mfu_frequency_buckets s"
  by (simp_all add: mfu_as_lfu_def mfu_defs lfu_defs Let_def split: option.splits)

lemma first_nonempty_bucket_rev_snoc:
  "first_nonempty_bucket (rev (front @ [(f, victim # bucket)])) = Some victim"
  by simp

lemma mfu_select_victim_tracked:
  assumes inv: "lfu_invariant (mfu_as_lfu s) a t" and ne: "fst ` set (mfu_key_frequency s) \<noteq> {}"
  shows "\<exists>k. mfu_select_victim s = Returns k s \<and> k \<in> fst ` set (mfu_key_frequency s)"
proof -
  from ne have "lfu_key_frequency (mfu_as_lfu s) \<noteq> []" by (auto simp: mfu_as_lfu_simps)
  from lfu_invariant_last_bucket [OF inv this]
  obtain f victim bucket front where
    B: "mfu_frequency_buckets s = front @ [(f, victim # bucket)]"
    and fv: "lfu_frequency (mfu_as_lfu s) victim = Some f"
    by (auto simp: mfu_as_lfu_simps)
  have "mfu_select_victim s = Returns victim s"
    by (simp add: mfu_select_victim_def B)
  moreover from fv have "victim \<in> fst ` set (mfu_key_frequency s)"
    using lfu_tracked_iff [of victim "mfu_as_lfu s"] by (simp add: mfu_as_lfu_simps)
  ultimately show ?thesis by blast
qed

subsection \<open>Every eviction policy\<close>

lemma eviction_invariant_tracked_keys:
  "eviction_invariant e K \<Longrightarrow> tracked_keys e = K"
  by (cases e)
     (auto simp: lru_invariant_def mru_invariant_def fifo_invariant_def random_invariant_def)

lemma eviction_invariant_new:
  "eviction_invariant (fst (new_eviction_policy ev now g)) {}"
proof (cases ev)
  case Random_eviction
  then show ?thesis
    by (simp add: random_invariant_def random_defs)
next
  case Lfu_eviction
  then show ?thesis
    using lfu_invariant_fresh by (auto simp: new_lfu_eviction_policy_def)
next
  case Mfu_eviction
  have "lfu_invariant (mfu_as_lfu (new_mfu_eviction_policy :: 'a mfu_eviction_policy)) (\<lambda>k. 0) 0"
    by (simp add: mfu_as_lfu_simps lfu_invariant_fresh)
  moreover have "mfu_key_frequency (new_mfu_eviction_policy :: 'a mfu_eviction_policy) = []"
    by (simp add: new_mfu_eviction_policy_def)
  ultimately show ?thesis using Mfu_eviction by auto
qed (simp_all add: lru_invariant_new mru_invariant_new fifo_invariant_new)

lemma eviction_invariant_on_insert:
  assumes inv: "eviction_invariant e K" and new: "k \<notin> K"
  shows "eviction_invariant (eviction_on_insert k e) (insert k K)"
proof (cases e)
  case (LFU s)
  with inv obtain a t where s: "lfu_invariant s a t" and K: "fst ` set (lfu_key_frequency s) = K"
    by auto
  from K new have "lfu_frequency s k = None" using lfu_tracked_iff [of k s] by simp
  from lfu_invariant_on_insert [OF s this] K LFU show ?thesis
    by (auto simp: lfu_keys_on_insert)
next
  case (MFU s)
  with inv obtain a t where s: "lfu_invariant (mfu_as_lfu s) a t"
    and K: "fst ` set (mfu_key_frequency s) = K"
    by auto
  from K new have "lfu_frequency (mfu_as_lfu s) k = None"
    using lfu_tracked_iff [of k "mfu_as_lfu s"] by (simp add: mfu_as_lfu_simps)
  from lfu_invariant_on_insert [OF s this] K MFU show ?thesis
    using lfu_keys_on_insert [of k "mfu_as_lfu s"]
    by (auto simp: mfu_as_lfu_simps(2) [symmetric] mfu_as_lfu_simps(6))
qed (use assms in \<open>simp_all add: lru_invariant_on_insert mru_invariant_on_insert
       fifo_invariant_on_insert random_invariant_on_insert\<close>)

lemma eviction_invariant_on_access:
  assumes inv: "eviction_invariant e K"
  shows "eviction_invariant (eviction_on_access k e) K"
proof (cases e)
  case (LFU s)
  with inv obtain a t where s: "lfu_invariant s a t" and K: "fst ` set (lfu_key_frequency s) = K"
    by auto
  from lfu_invariant_promoted [OF s, of k] K LFU show ?thesis
    by (auto simp: lfu_on_access_def lfu_keys_increment)
next
  case (MFU s)
  with inv obtain a t where s: "lfu_invariant (mfu_as_lfu s) a t"
    and K: "fst ` set (mfu_key_frequency s) = K"
    by auto
  from lfu_invariant_promoted [OF s, of k] K MFU show ?thesis
    using lfu_keys_increment [of k "mfu_as_lfu s"]
    by (auto simp: mfu_on_access_def mfu_as_lfu_simps(3) [symmetric] mfu_as_lfu_simps(6))
qed (use assms in \<open>simp_all add: lru_invariant_on_access mru_invariant_on_access
       fifo_on_access_def random_on_access_def\<close>)

lemma eviction_on_update_eq: "eviction_on_update k e = eviction_on_access k e"
  by (cases e)
     (simp_all add: lru_on_update_def mru_on_update_def fifo_on_update_def fifo_on_access_def
        lfu_on_update_def lfu_on_access_def mfu_on_update_def mfu_on_access_def
        random_on_update_def random_on_access_def)

lemma eviction_invariant_remove_key:
  assumes inv: "eviction_invariant e K"
  shows "eviction_invariant (eviction_remove_key k e) (K - {k})"
proof (cases e)
  case (LFU s)
  with inv obtain a t where s: "lfu_invariant s a t" and K: "fst ` set (lfu_key_frequency s) = K"
    by auto
  from lfu_invariant_remove_key [OF s, of k] K LFU show ?thesis
    by (auto simp: lfu_keys_remove_key)
next
  case (MFU s)
  with inv obtain a t where s: "lfu_invariant (mfu_as_lfu s) a t"
    and K: "fst ` set (mfu_key_frequency s) = K"
    by auto
  from lfu_invariant_remove_key [OF s, of k] K MFU show ?thesis
    using lfu_keys_remove_key [of k "mfu_as_lfu s"]
    by (auto simp: mfu_as_lfu_simps(4) [symmetric] mfu_as_lfu_simps(6))
qed (use assms in \<open>simp_all add: lru_invariant_remove_key mru_invariant_remove_key
       fifo_invariant_remove_key random_invariant_remove_key\<close>)

lemma eviction_invariant_clear: "eviction_invariant (eviction_clear e) {}"
proof (cases e)
  case (LFU s)
  then show ?thesis using lfu_invariant_clear [of s] by (auto simp: lfu_clear_def)
next
  case (MFU s)
  then show ?thesis
    using lfu_invariant_clear [of "mfu_as_lfu s"]
    by (auto simp: mfu_as_lfu_simps(5) [symmetric] mfu_clear_def)
qed (simp_all add: lru_invariant_clear mru_invariant_clear fifo_invariant_clear
       random_invariant_clear)

lemma eviction_select_victim_tracked:
  assumes inv: "eviction_invariant e K" and ne: "K \<noteq> {}"
  shows "\<exists>k e' g'. eviction_select_victim e g = Returns k (e', g') \<and> k \<in> K
           \<and> eviction_invariant (eviction_remove_key k e') (K - {k})"
proof (cases e)
  case (LRU s)
  with inv ne lru_select_victim_tracked [of s K]
  obtain k where "lru_select_victim s = Returns k s" "k \<in> K" by auto
  with LRU inv eviction_invariant_remove_key [OF inv, of k] show ?thesis
    by (auto simp: lift_outcome_def)
next
  case (MRU s)
  with inv ne mru_select_victim_tracked [of s K]
  obtain k where "mru_select_victim s = Returns k s" "k \<in> K" by auto
  with MRU inv eviction_invariant_remove_key [OF inv, of k] show ?thesis
    by (auto simp: lift_outcome_def)
next
  case (FIFO s)
  with inv ne fifo_select_victim_tracked [of s K]
  obtain k s' where "fifo_select_victim s = Returns k s'" "k \<in> K"
    "fifo_invariant (fifo_remove_key k s') (K - {k})" by auto
  with FIFO show ?thesis
    by (auto simp: lift_outcome_def)
next
  case (LFU s)
  with inv obtain a t where s: "lfu_invariant s a t" and K: "fst ` set (lfu_key_frequency s) = K"
    by auto
  from lfu_select_victim_tracked [OF s] K ne
  obtain k where "lfu_select_victim s = Returns k s" "k \<in> K" by auto
  with LFU eviction_invariant_remove_key [OF inv, of k] show ?thesis
    by (auto simp: lift_outcome_def)
next
  case (MFU s)
  with inv obtain a t where s: "lfu_invariant (mfu_as_lfu s) a t"
    and K: "fst ` set (mfu_key_frequency s) = K"
    by auto
  from mfu_select_victim_tracked [OF s] K ne
  obtain k where "mfu_select_victim s = Returns k s" "k \<in> K" by auto
  with MFU eviction_invariant_remove_key [OF inv, of k] show ?thesis
    by (auto simp: lift_outcome_def)
next
  case (RANDOM s)
  with inv ne random_select_victim_tracked [of s K g]
  obtain k g' where "random_select_victim s g = Returns k (s, g')" "k \<in> K" by auto
  with RANDOM eviction_invariant_remove_key [OF inv, of k] show ?thesis
    by (auto simp: lift_outcome_def)
qed

subsection \<open>The cache\<close>

lemma length_delete_present:
  "distinct (map fst al) \<Longrightarrow> map_of al k \<noteq> None \<Longrightarrow> Suc (length (AList.delete k al)) = length al"
proof (induction al)
  case Nil
  then show ?case by simp
next
  case (Cons e al)
  obtain j v where e: "e = (j, v)" by (cases e)
  show ?case
  proof (cases "j = k")
    case True
    with Cons.prems e have "k \<notin> fst ` set al" by auto
    then have "AList.delete k al = al" by simp
    with True e show ?thesis by simp
  next
    case False
    with Cons e show ?thesis by auto
  qed
qed

lemma length_update_new:
  "map_of al k = None \<Longrightarrow> length (AList.update k v al) = Suc (length al)"
  by (induction al) (auto split: if_splits)

lemma stored_keys_simps:
  "stored_keys (c\<lparr>m_storage_policy := st\<rparr>) = fst ` set st"
  "stored_keys (c\<lparr>m_eviction_policy := e\<rparr>) = stored_keys c"
  "stored_keys (c\<lparr>m_access_policy := a\<rparr>) = stored_keys c"
  "stored_keys (c\<lparr>m_capacity_policy := p\<rparr>) = stored_keys c"
  "stored_keys (c\<lparr>process_rand := g\<rparr>) = stored_keys c"
  by (simp_all add: stored_keys_def)

lemma contains_stored_keys: "contains k c \<longleftrightarrow> k \<in> stored_keys c"
  by (simp add: contains_def storage_contains_def stored_keys_def map_of_eq_None_iff)

lemma storage_empty_stored_keys: "m_storage_policy c = [] \<longleftrightarrow> stored_keys c = {}"
  by (simp add: stored_keys_def)

lemma evict_one_invariant:
  assumes inv: "cache_invariant c" and ne: "m_storage_policy c \<noteq> []"
  shows "\<exists>c'. evict_one c = Returns () c' \<and> cache_invariant c'
           \<and> Suc (cache_size c') = cache_size c
           \<and> stored_keys c' \<subseteq> stored_keys c
           \<and> m_capacity_policy c' = m_capacity_policy c
           \<and> m_access_policy c' = m_access_policy c"
proof -
  from inv have d: "distinct (map fst (m_storage_policy c))"
    and e: "eviction_invariant (m_eviction_policy c) (stored_keys c)"
    by (simp_all add: cache_invariant_def)
  from ne have "stored_keys c \<noteq> {}" by (simp add: storage_empty_stored_keys)
  from eviction_select_victim_tracked [OF e this, of "process_rand c"]
  obtain k e' g' where sel: "eviction_select_victim (m_eviction_policy c) (process_rand c)
        = Returns k (e', g')"
    and k: "k \<in> stored_keys c"
    and e': "eviction_invariant (eviction_remove_key k e') (stored_keys c - {k})"
    by blast
  from k have present: "map_of (m_storage_policy c) k \<noteq> None"
    by (simp add: stored_keys_def map_of_eq_None_iff)
  let ?c' = "c\<lparr>m_eviction_policy := eviction_remove_key k e',
               m_storage_policy := AList.delete k (m_storage_policy c), process_rand := g'\<rparr>"
  have ev: "evict_one c = Returns () ?c'"
    using sel present by (simp add: evict_one_def storage_erase_def)
  have keys: "stored_keys ?c' = stored_keys c - {k}"
    by (simp add: stored_keys_def dom_map_of_conv_image_fst [symmetric] delete_conv')
  have "cache_invariant ?c'"
    unfolding cache_invariant_def keys using d e' by (simp add: distinct_delete)
  moreover have "Suc (cache_size ?c') = cache_size c"
    using length_delete_present [OF d present] by (simp add: cache_size_def storage_size_def)
  moreover have "stored_keys ?c' \<subseteq> stored_keys c" unfolding keys by blast
  ultimately show ?thesis using ev by auto
qed

lemma evict_entries_invariant:
  assumes "cache_invariant c"
  shows "\<exists>c'. evict_entries n c = Returns () c' \<and> cache_invariant c'
           \<and> cache_size c' = cache_size c - n
           \<and> stored_keys c' \<subseteq> stored_keys c
           \<and> m_capacity_policy c' = m_capacity_policy c
           \<and> m_access_policy c' = m_access_policy c"
  using assms
proof (induction n arbitrary: c)
  case 0
  then show ?case by simp
next
  case (Suc n)
  show ?case
  proof (cases "m_storage_policy c = []")
    case True
    with Suc.prems show ?thesis
      by (simp add: storage_empty_def cache_size_def storage_size_def)
  next
    case False
    from evict_one_invariant [OF Suc.prems False]
    obtain c1 where c1: "evict_one c = Returns () c1" "cache_invariant c1"
      "Suc (cache_size c1) = cache_size c" "stored_keys c1 \<subseteq> stored_keys c"
      "m_capacity_policy c1 = m_capacity_policy c" "m_access_policy c1 = m_access_policy c"
      by blast
    from Suc.IH [OF c1(2)]
    obtain c2 where c2: "evict_entries n c1 = Returns () c2" "cache_invariant c2"
      "cache_size c2 = cache_size c1 - n" "stored_keys c2 \<subseteq> stored_keys c1"
      "m_capacity_policy c2 = m_capacity_policy c1" "m_access_policy c2 = m_access_policy c1"
      by blast
    from c1(3) c2(3) have "cache_size c2 = cache_size c - Suc n" by simp
    with False c1 c2 show ?thesis
      by (auto simp: storage_empty_def)
  qed
qed


lemma fixed_size_bound_iff:
  "fixed_size_bound c \<longleftrightarrow>
     (\<exists>p. m_capacity_policy c = Fixed p
          \<and> length (m_storage_policy c) \<le> max (fixed_m_capacity p) 1
          \<and> fixed_m_capacity p < 2 ^ 64 - 1)"
  by (simp add: fixed_size_bound_def cache_size_def storage_size_def
        split: capacity_policy.splits)

lemma evict_if_necessary_for_insertion_invariant:
  assumes "cache_invariant c"
  shows "\<exists>c'. (evict_if_necessary_for_insertion c = Returns () c'
               \<or> evict_if_necessary_for_insertion c = Throws Division_by_zero c')
           \<and> cache_invariant c'
           \<and> stored_keys c' \<subseteq> stored_keys c
           \<and> m_access_policy c' = m_access_policy c
           \<and> (\<forall>p. m_capacity_policy c = Fixed p \<longrightarrow>
                 evict_if_necessary_for_insertion c = Returns () c'
                 \<and> m_capacity_policy c' = Fixed p
                 \<and> cache_size c' = cache_size c - fixed_eviction_count (cache_size c) p)"
proof -
  obtain needed cp where n: "capacity_needs_eviction (cache_size c) (m_capacity_policy c) = (needed, cp)"
    by (cases "capacity_needs_eviction (cache_size c) (m_capacity_policy c)")
  let ?c0 = "c\<lparr>m_capacity_policy := cp\<rparr>"
  have inv0: "cache_invariant ?c0"
    using assms by (simp add: cache_invariant_def stored_keys_def)
  have fixed: "cp = Fixed p \<and> needed = (cache_size c \<ge> fixed_m_capacity p)"
    if "m_capacity_policy c = Fixed p" for p
    using n that by (auto simp: fixed_needs_eviction_def)
  show ?thesis
  proof (cases needed)
    case True
    show ?thesis
    proof (cases "capacity_eviction_count (cache_size c) cp")
      case None
      have "evict_if_necessary_for_insertion c = Throws Division_by_zero ?c0"
        using n True None
        by (simp add: evict_if_necessary_for_insertion_def cache_size_def Let_def)
      moreover have "m_capacity_policy c \<noteq> Fixed p" for p
        using fixed [of p] None by auto
      ultimately show ?thesis
        using inv0 by (auto simp: stored_keys_def)
    next
      case (Some eviction_count)
      from evict_entries_invariant [OF inv0, of eviction_count]
      obtain c' where c': "evict_entries eviction_count ?c0 = Returns () c'"
        "cache_invariant c'"
        "cache_size c' = cache_size ?c0 - eviction_count"
        "stored_keys c' \<subseteq> stored_keys ?c0"
        "m_capacity_policy c' = m_capacity_policy ?c0" "m_access_policy c' = m_access_policy ?c0"
        by blast
      have r: "evict_if_necessary_for_insertion c = Returns () c'"
        using n True Some c'(1)
        by (simp add: evict_if_necessary_for_insertion_def cache_size_def Let_def)
      have "eviction_count = fixed_eviction_count (cache_size c) p"
        if "m_capacity_policy c = Fixed p" for p
        using fixed [OF that] Some by simp
      with r c' fixed show ?thesis
        by (auto simp: stored_keys_def cache_size_def)
    qed
  next
    case False
    have "evict_if_necessary_for_insertion c = Returns () ?c0"
      using n False
      by (simp add: evict_if_necessary_for_insertion_def cache_size_def Let_def)
    with inv0 fixed False show ?thesis
      by (auto simp: stored_keys_def cache_size_def fixed_eviction_count_def)
  qed
qed

lemma evict_if_necessary_for_capacity_change_eq:
  "evict_if_necessary_for_capacity_change c = evict_if_necessary_for_insertion c"
  by (simp add: evict_if_necessary_for_capacity_change_def evict_if_necessary_for_insertion_def)

lemma put_invariant:
  assumes inv: "cache_invariant c"
  shows "\<exists>c'. (put k v c = Returns () c' \<or> put k v c = Throws Division_by_zero c')
           \<and> cache_invariant c'
           \<and> (fixed_size_bound c \<longrightarrow> fixed_size_bound c')"
proof (cases "map_of (m_storage_policy c) k = None")
  case True
  from evict_if_necessary_for_insertion_invariant [OF inv]
  obtain c1 where c1: "evict_if_necessary_for_insertion c = Returns () c1
        \<or> evict_if_necessary_for_insertion c = Throws Division_by_zero c1"
    "cache_invariant c1" "stored_keys c1 \<subseteq> stored_keys c"
    and fx: "\<And>p. m_capacity_policy c = Fixed p \<Longrightarrow>
                 evict_if_necessary_for_insertion c = Returns () c1
                 \<and> m_capacity_policy c1 = Fixed p
                 \<and> cache_size c1 = cache_size c - fixed_eviction_count (cache_size c) p"
    by blast
  from c1(1) show ?thesis
  proof
    assume t: "evict_if_necessary_for_insertion c = Throws Division_by_zero c1"
    with True have "put k v c = Throws Division_by_zero c1"
      by (simp add: put_def storage_contains_def)
    moreover have "\<not> fixed_size_bound c"
    proof
      assume "fixed_size_bound c"
      then obtain p where "m_capacity_policy c = Fixed p"
        by (auto simp: fixed_size_bound_def split: capacity_policy.splits)
      from fx [OF this] t show False by simp
    qed
    ultimately show ?thesis using c1(2) by blast
  next
    assume r: "evict_if_necessary_for_insertion c = Returns () c1"
    let ?c' = "c1\<lparr>m_storage_policy := AList.update k v (m_storage_policy c1),
                  m_eviction_policy := eviction_on_insert k (m_eviction_policy c1)\<rparr>"
    from True r have p: "put k v c = Returns () ?c'"
      by (simp add: put_def storage_contains_def storage_insert_def)
    from True have "k \<notin> stored_keys c" by (simp add: stored_keys_def map_of_eq_None_iff)
    with c1(3) have new: "k \<notin> stored_keys c1" by blast
    then have none1: "map_of (m_storage_policy c1) k = None"
      by (simp add: stored_keys_def map_of_eq_None_iff)
    have keys: "stored_keys ?c' = insert k (stored_keys c1)"
      by (simp add: stored_keys_def dom_update)
    from c1(2) new have "cache_invariant ?c'"
      unfolding cache_invariant_def keys
      by (simp add: distinct_update eviction_invariant_on_insert)
    moreover have "fixed_size_bound ?c'" if b: "fixed_size_bound c"
    proof -
      from b obtain p where p: "m_capacity_policy c = Fixed p"
        and le: "cache_size c \<le> max (fixed_m_capacity p) 1"
        and cap: "fixed_m_capacity p < 2 ^ 64 - 1"
        by (auto simp: fixed_size_bound_def split: capacity_policy.splits)
      from fx [OF p] have cp: "m_capacity_policy c1 = Fixed p"
        and sz: "cache_size c1 = cache_size c - fixed_eviction_count (cache_size c) p"
        by simp_all
      have "cache_size ?c' = Suc (cache_size c1)"
        using length_update_new [OF none1] by (simp add: cache_size_def storage_size_def)
      moreover from le have "fixed_eviction_count (cache_size c) p
          = (if cache_size c \<ge> fixed_m_capacity p
             then cache_size c - fixed_m_capacity p + 1 else 0)"
        by (auto simp: fixed_eviction_count_def size_t_add_def)
      ultimately have "cache_size ?c' \<le> max (fixed_m_capacity p) 1"
        using sz le by (auto split: if_splits)
      with cp cap show ?thesis by (simp add: fixed_size_bound_def)
    qed
    ultimately show ?thesis using p by blast
  qed
next
  case False
  let ?c' = "c\<lparr>m_storage_policy := AList.update k v (m_storage_policy c),
               m_eviction_policy := eviction_on_update k (m_eviction_policy c)\<rparr>"
  from put_present_key [OF False, of v] have p: "put k v c = Returns () ?c'" .
  from False have mem: "k \<in> stored_keys c" by (simp add: stored_keys_def map_of_eq_None_iff)
  then have keys: "stored_keys ?c' = stored_keys c"
    by (auto simp: stored_keys_def dom_update)
  from inv have "cache_invariant ?c'"
    unfolding cache_invariant_def keys
    by (simp add: distinct_update eviction_on_update_eq eviction_invariant_on_access)
  moreover from mem have "map fst (m_storage_policy ?c') = map fst (m_storage_policy c)"
    by (simp add: update_keys stored_keys_def)
  then have "length (m_storage_policy ?c') = length (m_storage_policy c)"
    by (metis length_map)
  then have "fixed_size_bound c \<Longrightarrow> fixed_size_bound ?c'"
    by (simp add: fixed_size_bound_def cache_size_def storage_size_def
          split: capacity_policy.splits)
  ultimately show ?thesis using p by blast
qed

lemma get_state:
  "m_storage_policy (snd (perform (Get k) c)) = m_storage_policy c"
  "m_capacity_policy (snd (perform (Get k) c)) = m_capacity_policy c"
  "m_eviction_policy (snd (perform (Get k) c)) = m_eviction_policy c
   \<or> m_eviction_policy (snd (perform (Get k) c)) = eviction_on_access k (m_eviction_policy c)"
  by (simp_all add: get_def split: option.splits outcome.splits)

lemma get_invariant:
  assumes inv: "cache_invariant c"
  shows "cache_invariant (snd (perform (Get k) c))
     \<and> (fixed_size_bound c \<longrightarrow> fixed_size_bound (snd (perform (Get k) c)))"
proof -
  note st = get_state [of k c]
  from inv st(3) have "eviction_invariant (m_eviction_policy (snd (perform (Get k) c))) (stored_keys c)"
    by (auto simp: cache_invariant_def eviction_invariant_on_access)
  with inv st(1) have "cache_invariant (snd (perform (Get k) c))"
    by (simp add: cache_invariant_def stored_keys_def)
  moreover from st(1,2) have "fixed_size_bound c \<Longrightarrow> fixed_size_bound (snd (perform (Get k) c))"
    unfolding fixed_size_bound_iff by simp
  ultimately show ?thesis by blast
qed

lemma erase_invariant:
  assumes inv: "cache_invariant c"
  shows "cache_invariant (snd (erase k c))
     \<and> (fixed_size_bound c \<longrightarrow> fixed_size_bound (snd (erase k c)))"
proof -
  let ?st = "AList.delete k (m_storage_policy c)"
  have keys: "fst ` set ?st = stored_keys c - {k}"
    by (simp add: stored_keys_def dom_map_of_conv_image_fst [symmetric] delete_conv')
  have len: "length ?st \<le> length (m_storage_policy c)" by (rule length_delete_le)
  show ?thesis
  proof (cases "map_of (m_storage_policy c) k = None")
    case True
    then have "k \<notin> stored_keys c" by (simp add: stored_keys_def map_of_eq_None_iff)
    then have "?st = m_storage_policy c" by (simp add: stored_keys_def)
    with True show ?thesis
      using inv
      by (simp add: erase_def storage_erase_def cache_invariant_def stored_keys_def
            fixed_size_bound_def cache_size_def)
  next
    case False
    let ?c' = "c\<lparr>m_storage_policy := ?st,
                m_eviction_policy := eviction_remove_key k (m_eviction_policy c)\<rparr>"
    from False have e: "snd (erase k c) = ?c'" by (simp add: erase_def storage_erase_def)
    from inv have "cache_invariant ?c'"
      unfolding cache_invariant_def
      by (simp add: stored_keys_simps keys distinct_delete eviction_invariant_remove_key)
    moreover from len have "fixed_size_bound c \<Longrightarrow> fixed_size_bound ?c'"
      by (auto simp: fixed_size_bound_def cache_size_def storage_size_def
            split: capacity_policy.splits)
    ultimately show ?thesis unfolding e by blast
  qed
qed

lemma clear_invariant:
  "cache_invariant (clear c) \<and> (fixed_size_bound c \<longrightarrow> fixed_size_bound (clear c))"
  by (auto simp: clear_def storage_clear_def cache_invariant_def stored_keys_def
        eviction_invariant_clear fixed_size_bound_def cache_size_def storage_size_def
        split: capacity_policy.splits)

lemma set_capacity_invariant:
  assumes inv: "cache_invariant c"
  shows "\<exists>c'. (set_capacity n c = Returns () c' \<or> set_capacity n c = Throws Division_by_zero c')
           \<and> cache_invariant c'
           \<and> (fixed_size_bound c \<and> n < 2 ^ 64 - 1 \<longrightarrow> fixed_size_bound c')"
proof -
  let ?c0 = "c\<lparr>m_capacity_policy := capacity_set_capacity n (m_capacity_policy c)\<rparr>"
  have inv0: "cache_invariant ?c0"
    using inv by (simp add: cache_invariant_def stored_keys_def)
  from evict_if_necessary_for_insertion_invariant [OF inv0]
  obtain c' where c': "evict_if_necessary_for_insertion ?c0 = Returns () c'
        \<or> evict_if_necessary_for_insertion ?c0 = Throws Division_by_zero c'"
    "cache_invariant c'"
    and fx: "\<And>p. m_capacity_policy ?c0 = Fixed p \<Longrightarrow>
                 m_capacity_policy c' = Fixed p
                 \<and> cache_size c' = cache_size ?c0 - fixed_eviction_count (cache_size ?c0) p"
    by blast
  have s: "set_capacity n c = Returns () c' \<or> set_capacity n c = Throws Division_by_zero c'"
    using c'(1) by (simp add: set_capacity_def evict_if_necessary_for_capacity_change_eq)
  have "fixed_size_bound c'" if b: "fixed_size_bound c" and n: "n < 2 ^ 64 - 1"
  proof -
    from b obtain p where p: "m_capacity_policy c = Fixed p"
      and le: "cache_size c \<le> max (fixed_m_capacity p) 1"
      and cap: "fixed_m_capacity p < 2 ^ 64 - 1"
      by (auto simp: fixed_size_bound_def split: capacity_policy.splits)
    from p have p0: "m_capacity_policy ?c0 = Fixed (fixed_set_capacity n p)" by simp
    have sz0: "cache_size ?c0 = cache_size c" by (simp add: cache_size_def)
    from le cap have small: "cache_size c < 2 ^ 64 - 1" by auto
    then have count: "fixed_eviction_count (cache_size c) (fixed_set_capacity n p)
        = (if cache_size c \<ge> n then cache_size c - n + 1 else 0)"
      by (auto simp: fixed_eviction_count_def fixed_set_capacity_def size_t_add_def)
    from fx [OF p0] have "m_capacity_policy c' = Fixed (fixed_set_capacity n p)"
      and "cache_size c' = cache_size c
             - fixed_eviction_count (cache_size c) (fixed_set_capacity n p)"
      unfolding sz0 by simp_all
    with count n show ?thesis
      by (auto simp: fixed_size_bound_def fixed_set_capacity_def split: if_splits)
  qed
  with s c'(2) show ?thesis by blast
qed

lemma perform_invariant:
  assumes "cache_invariant c"
  shows "cache_invariant (snd (perform op c))
     \<and> (fixed_size_bound c \<and> capacities_below_maximum [op]
          \<longrightarrow> fixed_size_bound (snd (perform op c)))"
proof (cases op)
  case (Put k v)
  from put_invariant [OF assms, of k v] Put show ?thesis by auto
next
  case (Get k)
  from get_invariant [OF assms, of k] Get show ?thesis by simp
next
  case (Erase k)
  from erase_invariant [OF assms, of k] Erase show ?thesis
    by (auto split: prod.splits)
next
  case (Set_capacity n)
  from set_capacity_invariant [OF assms, of n] Set_capacity show ?thesis
    by (auto simp: capacities_below_maximum_def)
next
  case Clear
  with clear_invariant [of c] show ?thesis by simp
qed (use assms in simp_all)

lemma perform_all_invariant:
  assumes "cache_invariant c"
  shows "cache_invariant (state_after ops c)
     \<and> (fixed_size_bound c \<and> capacities_below_maximum ops
          \<longrightarrow> fixed_size_bound (state_after ops c))"
  using assms
proof (induction ops arbitrary: c)
  case Nil
  then show ?case by (simp add: state_after_def)
next
  case (Cons op ops)
  from perform_invariant [OF Cons.prems, of op]
  have 1: "cache_invariant (snd (perform op c))"
    and 2: "fixed_size_bound c \<and> capacities_below_maximum [op]
              \<longrightarrow> fixed_size_bound (snd (perform op c))"
    by simp_all
  have 3: "capacities_below_maximum (op # ops)
      \<longleftrightarrow> capacities_below_maximum [op] \<and> capacities_below_maximum ops"
    by (auto simp: capacities_below_maximum_def)
  have "state_after (op # ops) c = state_after ops (snd (perform op c))"
    by (simp add: state_after_def split: prod.splits)
  with Cons.IH [OF 1] 2 3 show ?case by simp
qed

lemma new_policy_based_cache_invariant:
  "cache_invariant (new_policy_based_cache ev ac cp n now g :: ('k, 'v) policy_based_cache)"
proof -
  obtain e g' where e: "new_eviction_policy ev now g = (e :: 'k eviction_policy, g')"
    by (cases "new_eviction_policy ev now g :: 'k eviction_policy \<times> c_rand")
  with eviction_invariant_new [of ev now g] have "eviction_invariant e {}"
    by (metis fst_conv)
  with e show ?thesis
    by (simp add: new_policy_based_cache_def cache_invariant_def stored_keys_def)
qed

lemma new_policy_based_cache_fixed_size_bound:
  "n < 2 ^ 64 - 1 \<Longrightarrow> fixed_size_bound (new_policy_based_cache ev ac Fixed_capacity n now g)"
  by (simp add: new_policy_based_cache_def fixed_size_bound_def cache_size_def storage_size_def
        split: prod.splits)

lemma key_agreement:
  fixes c :: "('k, 'v) policy_based_cache"
  assumes "c = state_after ops (new_policy_based_cache ev ac cp n now g)"
  shows "contains k c \<longleftrightarrow> k \<in> tracked_keys (m_eviction_policy c)"
proof -
  from perform_all_invariant [OF new_policy_based_cache_invariant] assms
  have "cache_invariant c" by blast
  then have "tracked_keys (m_eviction_policy c) = stored_keys c"
    by (simp add: cache_invariant_def eviction_invariant_tracked_keys)
  then show ?thesis by (simp add: contains_stored_keys)
qed

text \<open>
  With the fixed capacity policy the cache holds at most \<open>max capacity 1\<close> entries after
  every sequence of operations, for capacities below the largest \<^verbatim>\<open>std::size_t\<close>.
\<close>

lemma size_within_fixed_capacity:
  fixes c :: "('k, 'v) policy_based_cache"
  assumes "c = state_after ops (new_policy_based_cache ev ac Fixed_capacity n now g)"
    and "n < 2 ^ 64 - 1" and "capacities_below_maximum ops"
  shows "cache_size c \<le> max (capacity c) 1"
proof -
  let ?c0 = "new_policy_based_cache ev ac Fixed_capacity n now g :: ('k, 'v) policy_based_cache"
  have "fixed_size_bound ?c0"
    using assms(2) by (rule new_policy_based_cache_fixed_size_bound)
  with perform_all_invariant [OF new_policy_based_cache_invariant, of ops ev ac Fixed_capacity n now g]
    assms(1,3)
  have "fixed_size_bound c" by blast
  then show ?thesis
    by (auto simp: fixed_size_bound_def capacity_def fixed_capacity_def
          split: capacity_policy.splits)
qed

subsection \<open>Frequency counters under the operations of the cache\<close>

text \<open>
  The cache calls \<^verbatim>\<open>on_insert\<close> only for a key that storage does not contain, and the
  eviction policy tracks the stored keys.  So under the public operations of a cache
  with the LFU or the MFU eviction policy the counter of a key that the policy tracks
  before and after an operation does not decrease, as long as it is below \<open>2 ^ 64 - 1\<close>.
\<close>

lemma eviction_frequency_remove_key:
  "eviction_frequency (eviction_remove_key j e) k
     = (if k = j then None else eviction_frequency e k)"
  by (cases e) (simp_all add: lfu_frequency_remove_key mfu_frequency_remove_key)

lemma eviction_frequency_select_victim:
  "eviction_frequency (fst (final_state (eviction_select_victim e g))) k
     = eviction_frequency e k"
  by (cases e)
     (simp_all add: lift_outcome_def lru_select_victim_def mru_select_victim_def
        fifo_select_victim_def lfu_select_victim_def mfu_select_victim_def
        random_select_victim_def std_rand_def Let_def
        split: list.splits option.splits prod.splits outcome.splits)

lemma eviction_frequency_on_insert:
  "k \<noteq> j \<Longrightarrow> eviction_frequency (eviction_on_insert j e) k = eviction_frequency e k"
  by (cases e) (simp_all add: lfu_frequency_on_insert mfu_frequency_on_insert)

lemma eviction_frequency_on_access:
  assumes "eviction_frequency e k = Some f" and "f < 2 ^ 64 - 1"
  shows "\<exists>f'. eviction_frequency (eviction_on_access j e) k = Some f' \<and> f \<le> f'"
  using assms
  by (cases e)
     (auto simp: lfu_on_access_def mfu_on_access_def lfu_frequency_increment
        mfu_frequency_increment size_t_add_below_max)

lemma eviction_frequency_tracked:
  "eviction_frequency e k = Some f \<Longrightarrow> k \<in> tracked_keys e"
proof (cases e)
  case (LFU s)
  assume "eviction_frequency e k = Some f"
  with LFU have "map_of (lfu_key_frequency s) k = Some f" by (simp add: lfu_frequency_def)
  then have "(k, f) \<in> set (lfu_key_frequency s)" by (rule map_of_SomeD)
  with LFU show ?thesis by force
next
  case (MFU s)
  assume "eviction_frequency e k = Some f"
  with MFU have "map_of (mfu_key_frequency s) k = Some f" by (simp add: mfu_frequency_def)
  then have "(k, f) \<in> set (mfu_key_frequency s)" by (rule map_of_SomeD)
  with MFU show ?thesis by force
qed simp_all

lemma evict_one_frequency:
  assumes "cache_frequency (final_state (evict_one c)) k = Some f"
  shows "cache_frequency c k = Some f"
proof (cases "eviction_select_victim (m_eviction_policy c) (process_rand c)")
  case (Throws err eg)
  obtain e' g' where eg: "eg = (e', g')" by (cases eg)
  from eviction_frequency_select_victim [of "m_eviction_policy c" "process_rand c" k] Throws eg
  have "eviction_frequency e' k = eviction_frequency (m_eviction_policy c) k" by simp
  with assms Throws eg show ?thesis
    by (simp add: evict_one_def cache_frequency_def)
next
  case (Returns victim eg)
  obtain e' g' where eg: "eg = (e', g')" by (cases eg)
  from eviction_frequency_select_victim [of "m_eviction_policy c" "process_rand c" k] Returns eg
  have same: "eviction_frequency e' k = eviction_frequency (m_eviction_policy c) k" by simp
  show ?thesis
  proof (cases "map_of (m_storage_policy c) victim = None")
    case True
    with assms Returns eg same show ?thesis
      by (simp add: evict_one_def cache_frequency_def storage_erase_def)
  next
    case False
    with assms Returns eg same show ?thesis
      by (simp add: evict_one_def cache_frequency_def storage_erase_def
            eviction_frequency_remove_key split: if_splits)
  qed
qed

lemma evict_entries_frequency:
  assumes "cache_frequency (final_state (evict_entries n c)) k = Some f"
  shows "cache_frequency c k = Some f"
  using assms
proof (induction n arbitrary: c)
  case 0
  then show ?case by simp
next
  case (Suc n)
  show ?case
  proof (cases "storage_empty (m_storage_policy c)")
    case True
    with Suc.prems show ?thesis by simp
  next
    case False
    show ?thesis
    proof (cases "evict_one c")
      case (Returns u c1)
      with Suc.prems False have "cache_frequency (final_state (evict_entries n c1)) k = Some f"
        by simp
      from Suc.IH [OF this] have "cache_frequency c1 k = Some f" .
      with Returns evict_one_frequency [of c k f] show ?thesis by simp
    next
      case (Throws e c1)
      with Suc.prems False have "cache_frequency c1 k = Some f"
        by (simp split: if_splits)
      with Throws evict_one_frequency [of c k f] show ?thesis by simp
    qed
  qed
qed

lemma evict_if_necessary_for_insertion_frequency:
  assumes "cache_frequency (final_state (evict_if_necessary_for_insertion c)) k = Some f"
  shows "cache_frequency c k = Some f"
proof -
  obtain needed cp where n:
    "capacity_needs_eviction (storage_size (m_storage_policy c)) (m_capacity_policy c)
       = (needed, cp)"
    by (cases "capacity_needs_eviction (storage_size (m_storage_policy c)) (m_capacity_policy c)")
  let ?c0 = "c\<lparr>m_capacity_policy := cp\<rparr>"
  have c0: "cache_frequency ?c0 k = cache_frequency c k"
    by (simp add: cache_frequency_def)
  show ?thesis
  proof (cases "needed")
    case False
    with assms n c0 show ?thesis
      by (simp add: evict_if_necessary_for_insertion_def Let_def)
  next
    case True
    show ?thesis
    proof (cases "capacity_eviction_count (storage_size (m_storage_policy c)) cp")
      case None
      with assms n True c0 show ?thesis
        by (simp add: evict_if_necessary_for_insertion_def Let_def)
    next
      case (Some eviction_count)
      with assms n True
      have "cache_frequency (final_state (evict_entries eviction_count ?c0)) k = Some f"
        by (simp add: evict_if_necessary_for_insertion_def Let_def)
      from evict_entries_frequency [OF this] c0 show ?thesis by simp
    qed
  qed
qed

lemma cache_frequency_never_decreases:
  assumes inv: "cache_invariant c"
    and before: "cache_frequency c k = Some f" and below: "f < 2 ^ 64 - 1"
    and after: "cache_frequency (snd (perform op c)) k = Some f'"
  shows "f \<le> f'"
proof (cases op)
  case (Put j v)
  show ?thesis
  proof (cases "map_of (m_storage_policy c) j = None")
    case False
    from put_present_key [OF False, of v] Put after
    have "eviction_frequency (eviction_on_access j (m_eviction_policy c)) k = Some f'"
      by (simp add: cache_frequency_def eviction_on_update_eq)
    with eviction_frequency_on_access [of "m_eviction_policy c" k f j] before below
    show ?thesis by (auto simp: cache_frequency_def)
  next
    case True
    from inv have "tracked_keys (m_eviction_policy c) = stored_keys c"
      by (simp add: cache_invariant_def eviction_invariant_tracked_keys)
    moreover from True have "j \<notin> stored_keys c"
      by (simp add: stored_keys_def map_of_eq_None_iff)
    moreover from before have "k \<in> tracked_keys (m_eviction_policy c)"
      unfolding cache_frequency_def by (rule eviction_frequency_tracked)
    ultimately have ne: "k \<noteq> j" by blast
    show ?thesis
    proof (cases "evict_if_necessary_for_insertion c")
      case (Throws e c1)
      with True Put after have "cache_frequency c1 k = Some f'"
        by (simp add: put_def storage_contains_def)
      with Throws evict_if_necessary_for_insertion_frequency [of c k f'] before
      show ?thesis by simp
    next
      case (Returns u c1)
      with True Put after ne have "cache_frequency c1 k = Some f'"
        by (simp add: put_def storage_contains_def cache_frequency_def
              eviction_frequency_on_insert)
      with Returns evict_if_necessary_for_insertion_frequency [of c k f'] before
      show ?thesis by simp
    qed
  qed
next
  case (Get j)
  from get_state(3) [of j c] show ?thesis
  proof
    assume "m_eviction_policy (snd (perform (Get j) c)) = m_eviction_policy c"
    with Get before after show ?thesis by (simp add: cache_frequency_def)
  next
    assume "m_eviction_policy (snd (perform (Get j) c))
      = eviction_on_access j (m_eviction_policy c)"
    with Get after have "eviction_frequency (eviction_on_access j (m_eviction_policy c)) k = Some f'"
      by (simp add: cache_frequency_def)
    with eviction_frequency_on_access [of "m_eviction_policy c" k f j] before below
    show ?thesis by (auto simp: cache_frequency_def)
  qed
next
  case (Erase j)
  with before after show ?thesis
    by (auto simp: erase_def storage_erase_def cache_frequency_def
          eviction_frequency_remove_key split: if_splits)
next
  case (Set_capacity n)
  let ?c0 = "c\<lparr>m_capacity_policy := capacity_set_capacity n (m_capacity_policy c)\<rparr>"
  have eq: "set_capacity n c = evict_if_necessary_for_insertion ?c0"
    by (simp add: set_capacity_def evict_if_necessary_for_capacity_change_def
          evict_if_necessary_for_insertion_def)
  have "snd (perform (Set_capacity n) c) = final_state (set_capacity n c)"
    by (cases "set_capacity n c") simp_all
  with Set_capacity after eq
  have "cache_frequency (final_state (evict_if_necessary_for_insertion ?c0)) k = Some f'"
    by simp
  from evict_if_necessary_for_insertion_frequency [OF this] before
  show ?thesis by (simp add: cache_frequency_def)
next
  case Clear
  with after show ?thesis
    by (cases "m_eviction_policy c")
       (simp_all add: clear_def cache_frequency_def lfu_clear_def mfu_clear_def
          lfu_frequency_def mfu_frequency_def)
qed (use before after in simp_all)

lemma counters_never_decrease_in_a_cache:
  fixes c :: "('k, 'v) policy_based_cache"
  assumes "c = state_after ops (new_policy_based_cache ev ac cp n now g)"
    and "cache_frequency c k = Some f" and "f < 2 ^ 64 - 1"
    and "cache_frequency (snd (perform op c)) k = Some f'"
  shows "f \<le> f'"
proof -
  from perform_all_invariant [OF new_policy_based_cache_invariant] assms(1)
  have "cache_invariant c" by blast
  from cache_frequency_never_decreases [OF this assms(2,3,4)] show ?thesis .
qed

end
